theory Spec2Isabelle
  imports Main "HOL-Library.Multiset"
begin

section \<open>Strings\<close>

text \<open>
  A Python \<open>str\<close> is modelled as a \<open>string\<close>; a \<open>char\<close> stands for a code point below
  256. \<open>isspace\<close> is \<open>str.isspace\<close> on that range, the set of characters that
  \<open>str.strip()\<close> and \<open>str.lstrip()\<close> remove when called without an argument.
\<close>

definition isspace :: "char \<Rightarrow> bool" where
  "isspace c \<longleftrightarrow> c \<in> {CHR 0x09, CHR 0x0A, CHR 0x0B, CHR 0x0C, CHR 0x0D,
     CHR 0x1C, CHR 0x1D, CHR 0x1E, CHR 0x1F, CHR 0x20, CHR 0x85, CHR 0xA0}"

definition lstrip :: "string \<Rightarrow> string" where
  "lstrip s = dropWhile isspace s"

definition rstrip :: "string \<Rightarrow> string" where
  "rstrip s = rev (dropWhile isspace (rev s))"

definition strip :: "string \<Rightarrow> string" where
  "strip s = rstrip (lstrip s)"

definition startswith :: "string \<Rightarrow> string \<Rightarrow> bool" where
  "startswith s p \<longleftrightarrow> take (length p) s = p"

definition endswith :: "string \<Rightarrow> string \<Rightarrow> bool" where
  "endswith s p \<longleftrightarrow> length p \<le> length s \<and> drop (length s - length p) s = p"

text \<open>\<open>s.split(sep, 1)\<close>: one piece when \<open>sep\<close> does not occur, else two.\<close>

definition split1 :: "char \<Rightarrow> string \<Rightarrow> string list" where
  "split1 sep s =
     (if sep \<in> set s
      then [takeWhile (\<lambda>c. c \<noteq> sep) s, tl (dropWhile (\<lambda>c. c \<noteq> sep) s)]
      else [s])"

text \<open>The slice \<open>val[1:-1]\<close>.\<close>

definition slice_1_m1 :: "string \<Rightarrow> string" where
  "slice_1_m1 v = take (length v - 2) (drop 1 v)"

definition dquote :: char where
  "dquote = CHR 0x22"

definition squote :: char where
  "squote = CHR 0x27"

definition backslash :: char where
  "backslash = CHR 0x5C"

definition newline :: char where
  "newline = CHR 0x0A"

section \<open>The block scan\<close>

definition get_indent :: "string \<Rightarrow> nat" where
  "get_indent line = length line - length (lstrip line)"

text \<open>
  The tests of one line in the loop of \<open>find_child_block\<close>. \<open>key\<close> and \<open>name\<close> are
  optional arguments (default \<open>None\<close>); \<open>if key and ...\<close> is false for \<open>None\<close> and for
  the empty string.
\<close>

definition skipped :: "string \<Rightarrow> bool" where
  "skipped line \<longleftrightarrow> (let stripped = strip line in stripped = [] \<or> startswith stripped ''#'')"

definition key_match :: "string option \<Rightarrow> string \<Rightarrow> bool" where
  "key_match key stripped \<longleftrightarrow>
     (case key of None \<Rightarrow> False | Some k \<Rightarrow> k \<noteq> [] \<and> startswith stripped (k @ '':''))"

definition unquote :: "string \<Rightarrow> string" where
  "unquote v =
     (if (startswith v [dquote] \<and> endswith v [dquote]) \<or>
         (startswith v [squote] \<and> endswith v [squote])
      then slice_1_m1 v else v)"

definition name_match :: "string option \<Rightarrow> string \<Rightarrow> bool" where
  "name_match name stripped \<longleftrightarrow>
     (case name of None \<Rightarrow> False
      | Some n \<Rightarrow> n \<noteq> [] \<and> startswith stripped ''- name:'' \<and>
          unquote (strip (split1 CHR '':'' stripped ! 1)) = n)"

text \<open>
  The loop \<open>for i in range(parent_idx + 1, len(lines))\<close>, run over the lines that follow
  the parent; \<open>i\<close> is the index of the head of the list. \<open>None\<close> is the source's \<open>-1\<close>.
\<close>

fun scan_block :: "nat \<Rightarrow> string option \<Rightarrow> string option \<Rightarrow> nat \<Rightarrow> string list \<Rightarrow> nat option" where
  "scan_block parent_indent key name i [] = None"
| "scan_block parent_indent key name i (line # rest) =
     (if skipped line then scan_block parent_indent key name (Suc i) rest
      else if get_indent line \<le> parent_indent then None
      else if key_match key (strip line) then Some i
      else if name_match name (strip line) then Some i
      else scan_block parent_indent key name (Suc i) rest)"

definition find_child_block :: "string list \<Rightarrow> nat \<Rightarrow> string option \<Rightarrow> string option \<Rightarrow> nat option" where
  "find_child_block lines parent_idx key name =
     (if parent_idx \<ge> length lines then None
      else scan_block (get_indent (lines ! parent_idx)) key name (Suc parent_idx)
             (drop (Suc parent_idx) lines))"

section \<open>The patcher\<close>

datatype kind = Model | Source

text \<open>
  One pending edit, the dict \<open>{type, parent, table, col, new_desc}\<close>. \<open>parent\<close> and
  \<open>table\<close> come from \<open>dict.get('name')\<close> and are \<open>None\<close> when the entry has no name;
  \<open>table\<close> is \<open>None\<close> for every model edit.
\<close>

record pending_fix =
  fix_type :: kind
  fix_parent :: "string option"
  fix_table :: "string option"
  fix_col :: string
  fix_new_desc :: string

text \<open>The warnings printed by \<open>update_file\<close>, one for each lookup that can miss.\<close>

datatype warning =
    NoRootKey string
  | NoParent kind "string option"
  | NoTablesKey
  | NoTable "string option"
  | NoColumnsKey
  | NoColumn string

definition root_key_of :: "kind \<Rightarrow> string" where
  "root_key_of t = (case t of Model \<Rightarrow> ''models'' | Source \<Rightarrow> ''sources'')"

text \<open>
  The loop \<open>for i, line in enumerate(lines)\<close> with its \<open>break\<close>: the first line whose
  stripped text starts with \<open>root_key:\<close>.
\<close>

fun find_root_from :: "string \<Rightarrow> nat \<Rightarrow> string list \<Rightarrow> nat option" where
  "find_root_from root_key i [] = None"
| "find_root_from root_key i (line # rest) =
     (if startswith (strip line) (root_key @ '':'') then Some i
      else find_root_from root_key (Suc i) rest)"

definition find_root :: "string list \<Rightarrow> string \<Rightarrow> nat option" where
  "find_root lines root_key = find_root_from root_key 0 lines"

text \<open>
  Steps 1 to 5 of the loop body of \<open>update_file\<close>: the index of the column's name line,
  or the warning of the first lookup that misses (the source prints it and goes on
  with the next edit).
\<close>

definition locate_column :: "string list \<Rightarrow> pending_fix \<Rightarrow> warning + nat" where
  "locate_column lines f =
     (case find_root lines (root_key_of (fix_type f)) of
        None \<Rightarrow> Inl (NoRootKey (root_key_of (fix_type f)))
      | Some root_idx \<Rightarrow>
     (case find_child_block lines root_idx None (fix_parent f) of
        None \<Rightarrow> Inl (NoParent (fix_type f) (fix_parent f))
      | Some parent_idx \<Rightarrow>
     (case (if fix_type f = Source
            then (case find_child_block lines parent_idx (Some ''tables'') None of
                    None \<Rightarrow> Inl NoTablesKey
                  | Some tables_idx \<Rightarrow>
                 (case find_child_block lines tables_idx None (fix_table f) of
                    None \<Rightarrow> Inl (NoTable (fix_table f))
                  | Some table_idx \<Rightarrow> Inr table_idx))
            else Inr parent_idx) of
        Inl w \<Rightarrow> Inl w
      | Inr current_idx \<Rightarrow>
     (case find_child_block lines current_idx (Some ''columns'') None of
        None \<Rightarrow> Inl NoColumnsKey
      | Some cols_idx \<Rightarrow>
     (case find_child_block lines cols_idx None (Some (fix_col f)) of
        None \<Rightarrow> Inl (NoColumn (fix_col f))
      | Some col_idx \<Rightarrow> Inr col_idx)))))"

text \<open>\<open>new_desc.replace('"', '\\"')\<close> and the quoted string built from it.\<close>

definition escape_quotes :: "string \<Rightarrow> string" where
  "escape_quotes s = concat (map (\<lambda>c. if c = dquote then [backslash, dquote] else [c]) s)"

definition new_desc_str :: "string \<Rightarrow> string" where
  "new_desc_str d = [dquote] @ escape_quotes d @ [dquote]"

definition replaced_line :: "string \<Rightarrow> string \<Rightarrow> string" where
  "replaced_line line d = split1 CHR '':'' line ! 0 @ '': '' @ new_desc_str d @ [newline]"

definition inserted_line :: "string \<Rightarrow> string \<Rightarrow> string" where
  "inserted_line col_line d =
     replicate (get_indent col_line + 2) CHR '' '' @ ''description: '' @ new_desc_str d @ [newline]"

text \<open>\<open>lines.insert(i, x)\<close> for \<open>i \<le> len(lines)\<close>.\<close>

definition list_insert :: "'a list \<Rightarrow> nat \<Rightarrow> 'a \<Rightarrow> 'a list" where
  "list_insert xs i x = take i xs @ [x] @ drop i xs"

text \<open>
  The whole loop body for one edit: \<open>Inl\<close> is a warning and \<open>continue\<close>, \<open>Inr\<close> the
  line buffer after the edit (and \<open>modified = True\<close>).
\<close>

definition apply_fix :: "string list \<Rightarrow> pending_fix \<Rightarrow> warning + string list" where
  "apply_fix lines f =
     (case locate_column lines f of
        Inl w \<Rightarrow> Inl w
      | Inr col_idx \<Rightarrow>
         (case find_child_block lines col_idx (Some ''description'') None of
            Some desc_idx \<Rightarrow>
              Inr (lines[desc_idx := replaced_line (lines ! desc_idx) (fix_new_desc f)])
          | None \<Rightarrow>
              Inr (list_insert lines (Suc col_idx)
                     (inserted_line (lines ! col_idx) (fix_new_desc f)))))"

text \<open>The state of the loop over the edits: the line buffer, \<open>modified\<close>, the warnings.\<close>

type_synonym patch_state = "string list \<times> bool \<times> warning list"

definition fix_step :: "patch_state \<Rightarrow> pending_fix \<Rightarrow> patch_state" where
  "fix_step st f =
     (case st of (lines, modified, warnings) \<Rightarrow>
        (case apply_fix lines f of
           Inl w \<Rightarrow> (lines, modified, warnings @ [w])
         | Inr lines' \<Rightarrow> (lines', True, warnings)))"

definition apply_fixes :: "string list \<Rightarrow> pending_fix list \<Rightarrow> patch_state" where
  "apply_fixes lines fixes = foldl fix_step (lines, False, []) fixes"

text \<open>
  A file is its text, as Python's text mode gives it (decoded, line ends translated to
  \<open>\n\<close>). \<open>readlines\<close> cuts it after every newline; \<open>writelines\<close> writes the
  concatenation.
\<close>

fun readlines :: "string \<Rightarrow> string list" where
  "readlines [] = []"
| "readlines (c # cs) =
     (if c = newline then [c] # readlines cs
      else (case readlines cs of [] \<Rightarrow> [[c]] | l # ls \<Rightarrow> (c # l) # ls))"

text \<open>
  \<open>update_file\<close> on the text of the file: the text to write back (\<open>None\<close> when the file
  is not opened for writing) and the warnings.
\<close>

definition update_file :: "string \<Rightarrow> pending_fix list \<Rightarrow> string option \<times> warning list" where
  "update_file content fixes =
     (case apply_fixes (readlines content) fixes of
        (lines, modified, warnings) \<Rightarrow>
          (if modified then Some (concat lines) else None, warnings))"

section \<open>The collector\<close>

text \<open>
  The parsed tree of one file, as far as the walk reads it: the fields it takes with
  \<open>dict.get\<close> are optional (\<open>None\<close> is the absent key or the YAML null), names and
  descriptions are strings, and \<open>columns\<close> and \<open>tables\<close> are the lists the defaults
  \<open>[]\<close> stand for when the key is absent. \<open>doc_models\<close> is \<open>None\<close> when the top-level
  mapping has no key \<open>models\<close>, and likewise \<open>doc_sources\<close>. \<open>doc_key_order\<close> lists the
  keys of the top-level mapping in the order of the file: the dict that the parser
  returns keeps that order, and the walk never reads it.
\<close>

record column =
  col_name :: "string option"
  col_description :: "string option"

record model =
  model_name :: "string option"
  model_columns :: "column list"

record table =
  table_name :: "string option"
  table_columns :: "column list"

record source =
  source_name :: "string option"
  source_tables :: "table list"

record document =
  doc_key_order :: "string list"
  doc_models :: "model list option"
  doc_sources :: "source list option"

record occurrence =
  occ_file :: string
  occ_type :: kind
  occ_parent :: "string option"
  occ_table :: "string option"

text \<open>
  \<open>col_map\<close> is a \<open>defaultdict\<close> of \<open>defaultdict(list)\<close>; Python dicts keep the order in
  which their keys were inserted, and the reconciler depends on it, so both levels are
  association lists in insertion order.
\<close>

type_synonym desc_dict = "(string \<times> occurrence list) list"
type_synonym col_map = "(string \<times> desc_dict) list"

text \<open>\<open>d[k].append(v)\<close> on a \<open>defaultdict(list)\<close>.\<close>

fun alist_append :: "('k \<times> 'v list) list \<Rightarrow> 'k \<Rightarrow> 'v \<Rightarrow> ('k \<times> 'v list) list" where
  "alist_append [] k v = [(k, [v])]"
| "alist_append ((k', vs) # rest) k v =
     (if k' = k then (k', vs @ [v]) # rest else (k', vs) # alist_append rest k v)"

text \<open>\<open>col_map[c_name][desc].append(occ)\<close>.\<close>

fun record_occ :: "col_map \<Rightarrow> string \<Rightarrow> string \<Rightarrow> occurrence \<Rightarrow> col_map" where
  "record_occ [] c d occ = [(c, alist_append [] d occ)]"
| "record_occ ((c', dd) # rest) c d occ =
     (if c' = c then (c', alist_append dd d occ) # rest else (c', dd) # record_occ rest c d occ)"

text \<open>
  One call of \<open>col_map[c_name][desc].append(...)\<close>: the column name, the description
  (\<open>col.get('description') or ''\<close>) and the occurrence.
\<close>

type_synonym event = "string \<times> string \<times> occurrence"

definition desc_of :: "column \<Rightarrow> string" where
  "desc_of col = (case col_description col of None \<Rightarrow> [] | Some d \<Rightarrow> d)"

text \<open>The loop over the columns of one model or table; \<open>if c_name:\<close> drops \<open>None\<close> and \<open>''\<close>.\<close>

definition column_events ::
  "string \<Rightarrow> kind \<Rightarrow> string option \<Rightarrow> string option \<Rightarrow> column list \<Rightarrow> event list" where
  "column_events file_path t parent tbl cols =
     concat (map (\<lambda>col.
       (case col_name col of
          None \<Rightarrow> []
        | Some c_name \<Rightarrow>
            if c_name = [] then []
            else [(c_name, desc_of col,
                   \<lparr>occ_file = file_path, occ_type = t, occ_parent = parent, occ_table = tbl\<rparr>)]))
       cols)"

definition model_events :: "string \<Rightarrow> model \<Rightarrow> event list" where
  "model_events file_path m =
     column_events file_path Model (model_name m) None (model_columns m)"

definition source_events :: "string \<Rightarrow> source \<Rightarrow> event list" where
  "source_events file_path s =
     concat (map (\<lambda>t. column_events file_path Source (source_name s) (table_name t)
                         (table_columns t)) (source_tables s))"

definition document_events :: "string \<Rightarrow> document \<Rightarrow> event list" where
  "document_events file_path data =
     (case doc_models data of None \<Rightarrow> [] | Some ms \<Rightarrow> concat (map (model_events file_path) ms)) @
     (case doc_sources data of None \<Rightarrow> [] | Some ss \<Rightarrow> concat (map (source_events file_path) ss))"

definition record_event :: "col_map \<Rightarrow> event \<Rightarrow> col_map" where
  "record_event cm e = (case e of (c, d, occ) \<Rightarrow> record_occ cm c d occ)"

text \<open>Everything the run prints.\<close>

datatype message =
    Scanning nat
  | ErrorReading string string
  | InconsistencyFor string
  | BestDescription nat string
  | OtherDescription nat string
  | Location occurrence
  | NoInconsistencies
  | FoundInconsistent nat
  | ApplyingFixes
  | Warn string warning
  | Updated string
  | FailedToUpdate string
  | FixesApplied

text \<open>
  \<open>yaml.safe_load\<close> is a library call: the model takes it as the parameter \<open>load\<close>,
  from the text of a file to the exception it raises (\<open>Inl\<close>) or the tree it returns
  (\<open>Inr None\<close> for a tree that is false in \<open>if not data\<close>, the empty document).

  The body of the loop over the files: an exception is printed and the loop goes on.
\<close>

type_synonym loader = "string \<Rightarrow> string + document option"

definition collect_step :: "loader \<Rightarrow> col_map \<times> message list \<Rightarrow> string \<times> string \<Rightarrow> col_map \<times> message list" where
  "collect_step load st file =
     (case st of (cm, out) \<Rightarrow>
      (case file of (file_path, content) \<Rightarrow>
        (case load content of
           Inl e \<Rightarrow> (cm, out @ [ErrorReading file_path e])
         | Inr None \<Rightarrow> (cm, out)
         | Inr (Some data) \<Rightarrow> (foldl record_event cm (document_events file_path data), out))))"

section \<open>The reconciler\<close>

text \<open>
  \<open>sorted(non_empty_descs.items(), key=lambda x: len(x[1]), reverse=True)\<close>: Python's sort
  is stable, also with \<open>reverse=True\<close>, so items with the same count keep the order of
  the dict.
\<close>

definition non_empty_descs :: "desc_dict \<Rightarrow> desc_dict" where
  "non_empty_descs dd = filter (\<lambda>x. fst x \<noteq> []) dd"

definition sorted_descs :: "desc_dict \<Rightarrow> desc_dict" where
  "sorted_descs dd = sort_key (\<lambda>x. - int (length (snd x))) (non_empty_descs dd)"

definition best_desc :: "desc_dict \<Rightarrow> string" where
  "best_desc dd = fst (sorted_descs dd ! 0)"

type_synonym fixes_by_file = "(string \<times> pending_fix list) list"

definition fix_of :: "string \<Rightarrow> string \<Rightarrow> occurrence \<Rightarrow> pending_fix" where
  "fix_of col best occ =
     \<lparr>fix_type = occ_type occ, fix_parent = occ_parent occ, fix_table = occ_table occ,
      fix_col = col, fix_new_desc = best\<rparr>"

text \<open>The loop over the occurrences of one other description.\<close>

definition occ_step ::
  "bool \<Rightarrow> string \<Rightarrow> string \<Rightarrow> fixes_by_file \<times> message list \<Rightarrow> occurrence
     \<Rightarrow> fixes_by_file \<times> message list" where
  "occ_step fix_mode col best st occ =
     (case st of (fbf, out) \<Rightarrow>
        (if fix_mode then alist_append fbf (occ_file occ) (fix_of col best occ) else fbf,
         out @ [Location occ]))"

text \<open>The loop over all descriptions of the column, the best one skipped.\<close>

definition desc_step ::
  "bool \<Rightarrow> string \<Rightarrow> string \<Rightarrow> fixes_by_file \<times> message list \<Rightarrow> string \<times> occurrence list
     \<Rightarrow> fixes_by_file \<times> message list" where
  "desc_step fix_mode col best st item =
     (case st of (fbf, out) \<Rightarrow>
      (case item of (desc, occurrences) \<Rightarrow>
        if desc = best then (fbf, out)
        else foldl (occ_step fix_mode col best)
               (fbf, out @ [OtherDescription (length occurrences) desc]) occurrences))"

type_synonym analysis = "nat \<times> fixes_by_file \<times> message list"

text \<open>The body of the loop \<open>for col, desc_dict in col_map.items()\<close>.\<close>

definition analyse_column :: "bool \<Rightarrow> analysis \<Rightarrow> string \<times> desc_dict \<Rightarrow> analysis" where
  "analyse_column fix_mode st item =
     (case st of (inconsistent_count, fbf, out) \<Rightarrow>
      (case item of (col, dd) \<Rightarrow>
        if non_empty_descs dd = [] then (inconsistent_count, fbf, out)
        else if length dd > 1 then
          (case foldl (desc_step fix_mode col (best_desc dd))
                  (fbf, out @ [InconsistencyFor col,
                               BestDescription (length (snd (sorted_descs dd ! 0))) (best_desc dd)])
                  dd of
             (fbf', out') \<Rightarrow> (Suc inconsistent_count, fbf', out'))
        else (inconsistent_count, fbf, out)))"

definition analyse :: "bool \<Rightarrow> col_map \<Rightarrow> message list \<Rightarrow> analysis" where
  "analyse fix_mode cm out = foldl (analyse_column fix_mode) (0, [], out) cm"

section \<open>The run\<close>

text \<open>
  The files found under the models directory, in the order \<open>find_yaml_files\<close> returns
  them, each with its text; a path occurs once.
\<close>

type_synonym tree = "(string \<times> string) list"

definition write_file :: "tree \<Rightarrow> string \<Rightarrow> string \<Rightarrow> tree" where
  "write_file files file_path content =
     map (\<lambda>(p, c). if p = file_path then (p, content) else (p, c)) files"

text \<open>
  The body of the loop over \<open>fixes_by_file.items()\<close>: \<open>update_file\<close> under its \<open>try\<close>;
  a file that cannot be opened raises and is reported.
\<close>

definition update_step :: "tree \<times> message list \<Rightarrow> string \<times> pending_fix list \<Rightarrow> tree \<times> message list" where
  "update_step st item =
     (case st of (files, out) \<Rightarrow>
      (case item of (file_path, fixes) \<Rightarrow>
        (case map_of files file_path of
           None \<Rightarrow> (files, out @ [FailedToUpdate file_path])
         | Some content \<Rightarrow>
            (case update_file content fixes of
               (None, warnings) \<Rightarrow> (files, out @ map (Warn file_path) warnings)
             | (Some content', warnings) \<Rightarrow>
                 (write_file files file_path content',
                  out @ map (Warn file_path) warnings @ [Updated file_path])))))"

record run_result =
  files_after :: tree
  inconsistent :: nat
  printed :: "message list"

text \<open>
  \<open>check_and_fix\<close> from the point where the models directory has been found and
  walked.
\<close>

definition check_and_fix :: "loader \<Rightarrow> tree \<Rightarrow> bool \<Rightarrow> run_result" where
  "check_and_fix load files fix_mode =
     (case foldl (collect_step load) ([], [Scanning (length files)]) files of
        (cm, out1) \<Rightarrow>
     (case analyse fix_mode cm out1 of
        (inconsistent_count, fbf, out2) \<Rightarrow>
     (let out3 = out2 @ [if inconsistent_count = 0 then NoInconsistencies
                         else FoundInconsistent inconsistent_count]
      in if fix_mode \<and> fbf \<noteq> [] then
           (case foldl update_step (files, out3 @ [ApplyingFixes]) fbf of
              (files', out4) \<Rightarrow>
                \<lparr>files_after = files', inconsistent = inconsistent_count,
                 printed = out4 @ [FixesApplied]\<rparr>)
         else \<lparr>files_after = files, inconsistent = inconsistent_count, printed = out3\<rparr>)))"

section \<open>Predicates and inputs used in the statements\<close>

text \<open>A line passes one of the two tests of the block scan.\<close>

definition matches :: "string option \<Rightarrow> string option \<Rightarrow> string \<Rightarrow> bool" where
  "matches key name line \<longleftrightarrow> key_match key (strip line) \<or> name_match name (strip line)"



text \<open>A file with one model, and edits for it.\<close>

definition orders_file :: string where
  "orders_file = ''version: 2
models:
  - name: orders
    columns:
      - name: id
        description: old text
      - name: status
''"

definition fix_id :: pending_fix where
  "fix_id = \<lparr>fix_type = Model, fix_parent = Some ''orders'', fix_table = None,
             fix_col = ''id'', fix_new_desc = ''new''\<rparr>"

definition fix_status :: pending_fix where
  "fix_status = \<lparr>fix_type = Model, fix_parent = Some ''orders'', fix_table = None,
                 fix_col = ''status'', fix_new_desc = ''new''\<rparr>"

definition fix_source :: pending_fix where
  "fix_source = \<lparr>fix_type = Source, fix_parent = Some ''raw'', fix_table = Some ''orders'',
                 fix_col = ''id'', fix_new_desc = ''new''\<rparr>"


text \<open>
  One edit changes the buffer in one line: it replaces line \<open>i\<close> or inserts a line after
  line \<open>i\<close>. \<open>successes\<close> counts the edits of a batch whose lookups reach their column,
  each on the buffer the edits before it have left.
\<close>

definition one_line_change :: "string list \<Rightarrow> string list \<Rightarrow> bool" where
  "one_line_change xs ys \<longleftrightarrow>
     (\<exists>i new. i < length xs \<and> (ys = xs[i := new] \<or> ys = take (Suc i) xs @ [new] @ drop (Suc i) xs))"

fun successes :: "string list \<Rightarrow> pending_fix list \<Rightarrow> nat" where
  "successes lines [] = 0"
| "successes lines (f # fs) =
     (case apply_fix lines f of
        Inl w \<Rightarrow> successes lines fs
      | Inr lines' \<Rightarrow> Suc (successes lines' fs))"


text \<open>
  The collected model of a stream of events, and how the statements read it: the
  occurrences of one column with their descriptions, in the order they were met; how
  often a description occurs among them; the dict the collector builds from them; the
  edits pending for one file.
\<close>

definition collect :: "event list \<Rightarrow> col_map" where
  "collect evs = foldl record_event [] evs"

definition column_pairs :: "event list \<Rightarrow> string \<Rightarrow> (string \<times> occurrence) list" where
  "column_pairs evs c = map snd (filter (\<lambda>e. fst e = c) evs)"


definition group_descs :: "(string \<times> occurrence) list \<Rightarrow> desc_dict" where
  "group_descs ps = foldl (\<lambda>dd p. alist_append dd (fst p) (snd p)) [] ps"



text \<open>A stream of events in which two descriptions of one column tie.\<close>

definition model_occ :: "string \<Rightarrow> string \<Rightarrow> occurrence" where
  "model_occ file_path m =
     \<lparr>occ_file = file_path, occ_type = Model, occ_parent = Some m, occ_table = None\<rparr>"

definition tie_events :: "event list" where
  "tie_events =
     [(''status'', ''B'', model_occ ''a.yml'' ''orders''),
      (''status'', ''A'', model_occ ''b.yml'' ''orders''),
      (''note'', '''', model_occ ''b.yml'' ''orders''),
      (''status'', '''', model_occ ''b.yml'' ''returns''),
      (''status'', ''A'', model_occ ''c.yml'' ''orders''),
      (''status'', ''B'', model_occ ''c.yml'' ''returns''),
      (''id'', ''key'', model_occ ''a.yml'' ''orders''),
      (''id'', ''key'', model_occ ''c.yml'' ''orders'')]"


text \<open>
  The events a run collects from a tree of files, and the edits it has pending after
  the analysis. Two states of the analysis agree when they have the same count and
  the same pending edits.
\<close>

definition file_events :: "loader \<Rightarrow> string \<times> string \<Rightarrow> event list" where
  "file_events load file =
     (case file of (file_path, content) \<Rightarrow>
        (case load content of
           Inl e \<Rightarrow> []
         | Inr None \<Rightarrow> []
         | Inr (Some data) \<Rightarrow> document_events file_path data))"

definition events_of :: "loader \<Rightarrow> tree \<Rightarrow> event list" where
  "events_of load files = concat (map (file_events load) files)"

definition pending_fixes :: "loader \<Rightarrow> tree \<Rightarrow> bool \<Rightarrow> fixes_by_file" where
  "pending_fixes load files fix_mode =
     fst (snd (analyse fix_mode (collect (events_of load files)) []))"


definition same_analysis :: "analysis \<Rightarrow> analysis \<Rightarrow> bool" where
  "same_analysis s s' \<longleftrightarrow> fst s = fst s' \<and> fst (snd s) = fst (snd s')"


text \<open>The text of a file after \<open>update_file\<close> has run on it with a batch of edits.\<close>

definition written :: "string \<Rightarrow> pending_fix list \<Rightarrow> string" where
  "written content fxs =
     (case fst (update_file content fxs) of None \<Rightarrow> content | Some content' \<Rightarrow> content')"


text \<open>
  A file in which the text of a block scalar starts with \<open>models:\<close>; the file of one
  model again, this time without the newline at its end; an edit whose description
  ends in a newline, as a block scalar's value does.
\<close>

definition seeds_file :: string where
  "seeds_file = ''version: 2
seeds:
  - name: countries
    description: |
      models: see the section below
models:
  - name: orders
    columns:
      - name: status
''"

definition unterminated_file :: string where
  "unterminated_file = ''version: 2
models:
  - name: orders
    columns:
      - name: id
        description: old text
      - name: status''"

definition fix_block :: pending_fix where
  "fix_block = \<lparr>fix_type = Model, fix_parent = Some ''orders'', fix_table = None,
                fix_col = ''id'', fix_new_desc = ''first'' @ [newline]\<rparr>"


text \<open>
  Modelled from the spec: the re-parse of a written value as a quoted value, which the
  spec's escaping property speaks of. The parser that reads the files is a library, not
  code of the repository. A double-quoted scalar starts with a double quote and ends
  at the first double quote that no backslash escapes, and nothing may follow it;
  between the two, a backslash and a double quote stand for a double quote, two
  backslashes for one backslash. Every other escape, and a line break inside the
  quotes, is outside this model: the reader answers \<open>None\<close> there, as it does for a
  text that is not one double-quoted scalar.
\<close>

fun dq_body :: "string \<Rightarrow> string option" where
  "dq_body [] = None"
| "dq_body (c # cs) =
     (if c = dquote then (if cs = [] then Some [] else None)
      else if c = newline then None
      else if c = backslash then
        (case cs of
           [] \<Rightarrow> None
         | e # rest \<Rightarrow>
             if e = dquote \<or> e = backslash then map_option ((#) e) (dq_body rest) else None)
      else map_option ((#) c) (dq_body cs))"

definition read_double_quoted :: "string \<Rightarrow> string option" where
  "read_double_quoted s =
     (case s of [] \<Rightarrow> None | c # cs \<Rightarrow> if c = dquote then dq_body cs else None)"

definition quoted_backslash :: string where
  "quoted_backslash = ''say '' @ [backslash, dquote] @ ''hi'' @ [backslash, dquote]"


text \<open>
  A loader given by a table, for the examples: the tree of each text listed, a parse
  error for every other text.
\<close>

definition table_loader :: "(string \<times> document) list \<Rightarrow> loader" where
  "table_loader tbl content =
     (case map_of tbl content of None \<Rightarrow> Inl ''ParserError'' | Some data \<Rightarrow> Inr (Some data))"








text \<open>
  A text the loader of the examples refuses. A file with a description for the column
  \<open>status\<close>, and a file whose only model has no name.
\<close>

definition broken_file :: string where
  "broken_file = ''models: [''"

definition reference_file :: string where
  "reference_file = ''version: 2
models:
  - name: customers
    columns:
      - name: status
        description: current state
''"

definition reference_doc :: document where
  "reference_doc =
     \<lparr>doc_key_order = [''version'', ''models''],
      doc_models = Some [\<lparr>model_name = Some ''customers'',
          model_columns = [\<lparr>col_name = Some ''status'',
                            col_description = Some ''current state''\<rparr>]\<rparr>],
      doc_sources = None\<rparr>"

definition nameless_file :: string where
  "nameless_file = ''version: 2
models:
  - columns:
      - name: status
''"

definition nameless_model :: model where
  "nameless_model =
     \<lparr>model_name = None,
      model_columns = [\<lparr>col_name = Some ''status'', col_description = None\<rparr>]\<rparr>"

definition nameless_doc :: document where
  "nameless_doc =
     \<lparr>doc_key_order = [''version'', ''models''], doc_models = Some [nameless_model],
      doc_sources = None\<rparr>"

definition nameless_source :: source where
  "nameless_source =
     \<lparr>source_name = None,
      source_tables = [\<lparr>table_name = Some ''orders'',
          table_columns = [\<lparr>col_name = Some ''id'', col_description = Some ''key''\<rparr>]\<rparr>]\<rparr>"

definition nameless_occ :: "string \<Rightarrow> occurrence" where
  "nameless_occ file_path =
     \<lparr>occ_file = file_path, occ_type = Model, occ_parent = None, occ_table = None\<rparr>"



text \<open>
  The same nameless model in a file that writes the key \<open>models\<close> in double quotes: the
  tree the parser returns is the same, and no line of the text starts with \<open>models:\<close>.
\<close>

definition quoted_key_file :: string where
  "quoted_key_file = ''version: 2
'' @ [dquote] @ ''models'' @ [dquote] @ '':
  - columns:
      - name: status
''"

definition quoted_key_load :: loader where
  "quoted_key_load =
     table_loader [(reference_file, reference_doc), (quoted_key_file, nameless_doc)]"

definition quoted_key_tree :: tree where
  "quoted_key_tree = [(''a.yml'', reference_file), (''q.yml'', quoted_key_file)]"

text \<open>
  The warning an edit with no parent name is dropped with: the one of the root key
  when no line starts with it, the one of the parent otherwise.
\<close>

definition nameless_warning :: "string list \<Rightarrow> pending_fix \<Rightarrow> warning" where
  "nameless_warning lines f =
     (case find_root lines (root_key_of (fix_type f)) of
        None \<Rightarrow> NoRootKey (root_key_of (fix_type f))
      | Some root_idx \<Rightarrow> NoParent (fix_type f) None)"


text \<open>
  The file of the model \<open>orders\<close> with its tree, the text the first run leaves of it
  when \<open>reference_file\<close> is in the same tree, and the tree of that text.
\<close>

definition orders_doc :: document where
  "orders_doc =
     \<lparr>doc_key_order = [''version'', ''models''],
      doc_models = Some [\<lparr>model_name = Some ''orders'',
          model_columns = [\<lparr>col_name = Some ''id'', col_description = Some ''old text''\<rparr>,
                           \<lparr>col_name = Some ''status'', col_description = None\<rparr>]\<rparr>],
      doc_sources = None\<rparr>"

definition patched_orders_file :: string where
  "patched_orders_file =
     orders_file @ ''        description: '' @ [dquote] @ ''current state'' @ [dquote] @ [newline]"




text \<open>
  A tree with a file that does not parse, a file whose pending edit cannot be placed
  and a file whose pending edit can.
\<close>

definition mixed_load :: loader where
  "mixed_load =
     table_loader [(reference_file, reference_doc), (nameless_file, nameless_doc),
                   (orders_file, orders_doc)]"

definition mixed_tree :: tree where
  "mixed_tree =
     [(''a.yml'', reference_file), (''bad.yml'', broken_file), (''b.yml'', nameless_file),
      (''c.yml'', orders_file)]"

section \<open>The block scan stays inside the block\<close>

lemma scan_block_Some:
  "scan_block d key name i ls = Some r \<longleftrightarrow>
     (\<exists>n<length ls. r = i + n \<and> \<not> skipped (ls ! n) \<and> d < get_indent (ls ! n) \<and>
        matches key name (ls ! n) \<and>
        (\<forall>k<n. skipped (ls ! k) \<or> (d < get_indent (ls ! k) \<and> \<not> matches key name (ls ! k))))"
proof (induction ls arbitrary: i)
  case Nil
  show ?case by simp
next
  case (Cons l ls)
  let ?P = "\<lambda>xs n. \<not> skipped (xs ! n) \<and> d < get_indent (xs ! n) \<and>
        matches key name (xs ! n) \<and>
        (\<forall>k<n. skipped (xs ! k) \<or> (d < get_indent (xs ! k) \<and> \<not> matches key name (xs ! k)))"
  have step: "(\<exists>n<length (l # ls). r = i + n \<and> ?P (l # ls) n) \<longleftrightarrow>
        (r = i \<and> ?P (l # ls) 0) \<or> (\<exists>n<length ls. r = Suc i + n \<and> ?P (l # ls) (Suc n))"
    (is "?L \<longleftrightarrow> ?R")
  proof
    assume ?L
    then obtain n where n: "n < length (l # ls)" "r = i + n" "?P (l # ls) n" by blast
    show ?R
    proof (cases n)
      case 0
      with n show ?thesis by simp
    next
      case (Suc m)
      with n show ?thesis by auto
    qed
  next
    assume ?R
    then show ?L
    proof
      assume "r = i \<and> ?P (l # ls) 0"
      then show ?L by auto
    next
      assume "\<exists>n<length ls. r = Suc i + n \<and> ?P (l # ls) (Suc n)"
      then obtain n where "n < length ls" "r = Suc i + n" "?P (l # ls) (Suc n)" by blast
      then have "Suc n < length (l # ls) \<and> r = i + Suc n \<and> ?P (l # ls) (Suc n)" by simp
      then show ?L by blast
    qed
  qed
  have shift: "?P (l # ls) (Suc n) \<longleftrightarrow>
      (skipped l \<or> (d < get_indent l \<and> \<not> matches key name l)) \<and> ?P ls n" for n
    by (auto simp: less_Suc_eq_0_disj)
  show ?case
    unfolding step shift
    using Cons.IH [of "Suc i"]
    by (auto simp: matches_def)
qed

lemma find_child_block_Some:
  "find_child_block lines p key name = Some i \<longleftrightarrow>
      p < i \<and> i < length lines \<and> \<not> skipped (lines ! i) \<and>
      get_indent (lines ! p) < get_indent (lines ! i) \<and> matches key name (lines ! i) \<and>
      (\<forall>k. p < k \<and> k < i \<longrightarrow> skipped (lines ! k) \<or>
            (get_indent (lines ! p) < get_indent (lines ! k) \<and> \<not> matches key name (lines ! k)))"
  (is "?L \<longleftrightarrow> ?R")
proof (cases "p < length lines")
  case False
  then show ?thesis by (auto simp: find_child_block_def)
next
  case True
  let ?d = "get_indent (lines ! p)"
  let ?ls = "drop (Suc p) lines"
  have L: "?L \<longleftrightarrow> scan_block ?d key name (Suc p) ?ls = Some i"
    using True by (simp add: find_child_block_def)
  show ?thesis
  proof
    assume ?L
    then obtain n where n: "n < length ?ls" "i = Suc p + n" "\<not> skipped (?ls ! n)"
        "?d < get_indent (?ls ! n)" "matches key name (?ls ! n)"
        "\<forall>k<n. skipped (?ls ! k) \<or> (?d < get_indent (?ls ! k) \<and> \<not> matches key name (?ls ! k))"
      unfolding L scan_block_Some by blast
    have nth: "?ls ! k = lines ! (Suc p + k)" if "k \<le> n" for k
      using that n(1) by simp
    have "\<forall>k. p < k \<and> k < i \<longrightarrow> skipped (lines ! k) \<or>
            (?d < get_indent (lines ! k) \<and> \<not> matches key name (lines ! k))"
    proof (intro allI impI)
      fix k assume k: "p < k \<and> k < i"
      then have "k - Suc p < n" using n(2) by arith
      with n(6) nth [of "k - Suc p"] k show "skipped (lines ! k) \<or>
            (?d < get_indent (lines ! k) \<and> \<not> matches key name (lines ! k))" by auto
    qed
    with n nth [of n] show ?R by auto
  next
    assume R: ?R
    define n where "n = i - Suc p"
    from R have i: "i = Suc p + n" "n < length ?ls" by (auto simp: n_def)
    have nth: "?ls ! k = lines ! (Suc p + k)" if "k \<le> n" for k
      using that i(2) by simp
    have "\<forall>k<n. skipped (?ls ! k) \<or> (?d < get_indent (?ls ! k) \<and> \<not> matches key name (?ls ! k))"
    proof (intro allI impI)
      fix k assume "k < n"
      then have "p < Suc p + k \<and> Suc p + k < i" using i by arith
      with R nth [of k] \<open>k < n\<close> show "skipped (?ls ! k) \<or> (?d < get_indent (?ls ! k) \<and> \<not> matches key name (?ls ! k))"
        by auto
    qed
    with R i nth [of n] show ?L unfolding L scan_block_Some by auto
  qed
qed





section \<open>Lookups of the patcher\<close>

lemma find_child_block_less:
  "find_child_block lines p key name = Some i \<Longrightarrow> p < i \<and> i < length lines"
  by (simp add: find_child_block_Some)

lemma find_root_from_Some:
  "find_root_from rk i ls = Some r \<longleftrightarrow>
     (\<exists>n<length ls. r = i + n \<and> startswith (strip (ls ! n)) (rk @ '':'') \<and>
        (\<forall>k<n. \<not> startswith (strip (ls ! k)) (rk @ '':'')))"
proof (induction ls arbitrary: i)
  case Nil
  show ?case by simp
next
  case (Cons l ls)
  show ?case
  proof (cases "startswith (strip l) (rk @ '':'')")
    case True
    have "(\<exists>n<length (l # ls). r = i + n \<and> startswith (strip ((l # ls) ! n)) (rk @ '':'') \<and>
        (\<forall>k<n. \<not> startswith (strip ((l # ls) ! k)) (rk @ '':''))) \<longleftrightarrow> r = i" (is "?A \<longleftrightarrow> _")
    proof
      assume ?A
      then obtain n where n: "r = i + n" "\<forall>k<n. \<not> startswith (strip ((l # ls) ! k)) (rk @ '':'')"
        by blast
      have "n = 0"
      proof (rule ccontr)
        assume "n \<noteq> 0"
        then have "0 < n" by simp
        with n(2) have "\<not> startswith (strip ((l # ls) ! 0)) (rk @ '':'')" by blast
        with True show False by simp
      qed
      with n show "r = i" by simp
    next
      assume "r = i"
      with True have "0 < length (l # ls) \<and> r = i + 0 \<and>
        startswith (strip ((l # ls) ! 0)) (rk @ '':'') \<and>
        (\<forall>k<0. \<not> startswith (strip ((l # ls) ! k)) (rk @ '':''))" by simp
      then show ?A by blast
    qed
    with True show ?thesis by auto
  next
    case False
    have "(\<exists>n<length (l # ls). r = i + n \<and> startswith (strip ((l # ls) ! n)) (rk @ '':'') \<and>
        (\<forall>k<n. \<not> startswith (strip ((l # ls) ! k)) (rk @ '':''))) \<longleftrightarrow>
       (\<exists>n<length ls. r = Suc i + n \<and> startswith (strip (ls ! n)) (rk @ '':'') \<and>
        (\<forall>k<n. \<not> startswith (strip (ls ! k)) (rk @ '':'')))" (is "?A \<longleftrightarrow> ?B")
    proof
      assume ?A
      then obtain n where n: "n < length (l # ls)" "r = i + n"
        "startswith (strip ((l # ls) ! n)) (rk @ '':'')"
        "\<forall>k<n. \<not> startswith (strip ((l # ls) ! k)) (rk @ '':'')" by blast
      with False obtain m where m: "n = Suc m" by (cases n) auto
      with n have "m < length ls \<and> r = Suc i + m \<and> startswith (strip (ls ! m)) (rk @ '':'') \<and>
        (\<forall>k<m. \<not> startswith (strip (ls ! k)) (rk @ '':''))" by auto
      then show ?B by blast
    next
      assume ?B
      then obtain m where m: "m < length ls" "r = Suc i + m" "startswith (strip (ls ! m)) (rk @ '':'')"
        "\<forall>k<m. \<not> startswith (strip (ls ! k)) (rk @ '':'')" by blast
      with False have "Suc m < length (l # ls) \<and> r = i + Suc m \<and>
        startswith (strip ((l # ls) ! Suc m)) (rk @ '':'') \<and>
        (\<forall>k<Suc m. \<not> startswith (strip ((l # ls) ! k)) (rk @ '':''))"
        by (auto simp: less_Suc_eq_0_disj)
      then show ?A by blast
    qed
    with False Cons.IH [of "Suc i"] show ?thesis by simp
  qed
qed

lemma find_root_Some:
  "find_root lines rk = Some i \<longleftrightarrow>
     i < length lines \<and> startswith (strip (lines ! i)) (rk @ '':'') \<and>
     (\<forall>k<i. \<not> startswith (strip (lines ! k)) (rk @ '':''))"
  by (auto simp: find_root_def find_root_from_Some)

lemma find_root_None:
  "find_root lines rk = None \<longleftrightarrow>
     (\<forall>k<length lines. \<not> startswith (strip (lines ! k)) (rk @ '':''))"
proof
  assume n: "find_root lines rk = None"
  show "\<forall>k<length lines. \<not> startswith (strip (lines ! k)) (rk @ '':'')"
  proof (intro allI impI notI)
    fix k assume k: "k < length lines" "startswith (strip (lines ! k)) (rk @ '':'')"
    define j where "j = (LEAST j. j < length lines \<and> startswith (strip (lines ! j)) (rk @ '':''))"
    have "j < length lines \<and> startswith (strip (lines ! j)) (rk @ '':'')"
      unfolding j_def by (rule LeastI [of _ k]) (use k in simp)
    moreover have "\<forall>m<j. \<not> startswith (strip (lines ! m)) (rk @ '':'')"
    proof (intro allI impI notI)
      fix m assume m: "m < j" "startswith (strip (lines ! m)) (rk @ '':'')"
      with \<open>j < length lines \<and> _\<close> have "m < length lines \<and> startswith (strip (lines ! m)) (rk @ '':'')"
        by simp
      then have "j \<le> m" unfolding j_def by (rule Least_le)
      with m show False by simp
    qed
    ultimately have "find_root lines rk = Some j" by (simp add: find_root_Some)
    with n show False by simp
  qed
next
  assume "\<forall>k<length lines. \<not> startswith (strip (lines ! k)) (rk @ '':'')"
  then have "find_root lines rk \<noteq> Some i" for i by (auto simp: find_root_Some)
  then show "find_root lines rk = None" by (cases "find_root lines rk") auto
qed

lemma locate_column_less:
  "locate_column lines f = Inr c \<Longrightarrow> c < length lines"
  by (auto simp: locate_column_def split: option.splits sum.splits if_splits
      dest: find_child_block_less)

lemma split1_0: "split1 c s ! 0 = takeWhile (\<lambda>x. x \<noteq> c) s"
proof (cases "c \<in> set s")
  case True
  then show ?thesis by (simp add: split1_def)
next
  case False
  then have "takeWhile (\<lambda>x. x \<noteq> c) s = s" by (induction s) auto
  moreover from False have "split1 c s = [s]" by (simp add: split1_def)
  ultimately show ?thesis by (simp only: nth_Cons_0)
qed

lemma rstrip_prefix: "\<exists>t. s = rstrip s @ t"
proof -
  have "rev (rev s) = rev (takeWhile isspace (rev s) @ dropWhile isspace (rev s))"
    by (simp only: takeWhile_dropWhile_id)
  then have "s = rstrip s @ rev (takeWhile isspace (rev s))"
    by (simp only: rev_rev_ident rev_append rstrip_def)
  then show ?thesis ..
qed

lemma startswith_append: "startswith s p \<longleftrightarrow> (\<exists>t. s = p @ t)"
proof
  assume "startswith s p"
  then have "s = p @ drop (length p) s"
    unfolding startswith_def by (metis append_take_drop_id)
  then show "\<exists>t. s = p @ t" ..
next
  assume "\<exists>t. s = p @ t"
  then show "startswith s p" by (auto simp: startswith_def)
qed

lemma startswith_strip:
  assumes "startswith (strip l) p"
  shows "\<exists>t. l = takeWhile isspace l @ p @ t"
proof -
  from assms obtain t where t: "strip l = p @ t" by (auto simp: startswith_append)
  obtain u where u: "lstrip l = rstrip (lstrip l) @ u" using rstrip_prefix by blast
  have "l = takeWhile isspace l @ lstrip l" by (simp add: lstrip_def)
  also have "lstrip l = p @ t @ u" using t u by (simp add: strip_def)
  finally show ?thesis by blast
qed

lemma key_token_preserved:
  assumes "key_match (Some k) (strip l)" and "CHR '':'' \<notin> set k"
  shows "takeWhile (\<lambda>x. x \<noteq> CHR '':'') l = takeWhile isspace l @ k"
proof -
  from assms(1) have "startswith (strip l) (k @ '':'')" by (simp add: key_match_def)
  then obtain t where t: "l = takeWhile isspace l @ (k @ '':'') @ t"
    using startswith_strip by blast
  have ws: "\<forall>x\<in>set (takeWhile isspace l). x \<noteq> CHR '':''"
    by (auto dest!: set_takeWhileD simp: isspace_def)
  have "takeWhile (\<lambda>x. x \<noteq> CHR '':'') (takeWhile isspace l @ (k @ '':'') @ t) =
        takeWhile isspace l @ k"
  proof -
    from assms(2) have k: "\<forall>x\<in>set k. x \<noteq> CHR '':''" by auto
    have "takeWhile (\<lambda>x. x \<noteq> CHR '':'') (k @ '':'' @ t) = k"
      using k by (simp add: takeWhile_append2)
    with ws show ?thesis by (simp add: takeWhile_append2)
  qed
  with t show ?thesis by simp
qed

lemma get_indent_takeWhile: "get_indent l = length (takeWhile isspace l)"
proof -
  have "length l = length (takeWhile isspace l) + length (dropWhile isspace l)"
    by (metis length_append takeWhile_dropWhile_id)
  then show ?thesis by (simp add: get_indent_def lstrip_def)
qed

lemma get_indent_spaces:
  assumes "\<not> isspace c"
  shows "get_indent (replicate n CHR '' '' @ c # rest) = n"
proof -
  have sp: "isspace CHR '' ''" by (simp add: isspace_def)
  have "takeWhile isspace (replicate n CHR '' '' @ c # rest) = replicate n CHR '' ''"
    using assms sp by (induction n) simp_all
  then show ?thesis by (simp add: get_indent_takeWhile)
qed

lemma get_indent_inserted:
  "get_indent (replicate n CHR '' '' @ ''description: '' @ rest) = n"
  using get_indent_spaces [of "CHR ''d''" n "''escription: '' @ rest"]
  by (simp add: isspace_def)

lemma desc_line_key:
  assumes "find_child_block lines c (Some ''description'') None = Some d"
  shows "d < length lines \<and> key_match (Some ''description'') (strip (lines ! d))"
  using assms by (simp add: find_child_block_Some matches_def name_match_def)

lemma apply_fix_replace:
  assumes "locate_column lines f = Inr c"
    and "find_child_block lines c (Some ''description'') None = Some d"
  shows "apply_fix lines f = Inr (lines[d := replaced_line (lines ! d) (fix_new_desc f)])"
  using assms by (simp add: apply_fix_def)

lemma apply_fix_insert:
  assumes "locate_column lines f = Inr c"
    and "find_child_block lines c (Some ''description'') None = None"
  shows "apply_fix lines f =
    Inr (list_insert lines (Suc c) (inserted_line (lines ! c) (fix_new_desc f)))"
  using assms by (simp add: apply_fix_def)


section \<open>The loop over the edits of a file\<close>

lemma apply_fix_one_line:
  assumes "apply_fix lines f = Inr lines'"
  shows "one_line_change lines lines'"
proof -
  from assms obtain c where c: "locate_column lines f = Inr c"
    by (auto simp: apply_fix_def split: sum.splits)
  show ?thesis
  proof (cases "find_child_block lines c (Some ''description'') None")
    case None
    from apply_fix_insert [OF c None] assms locate_column_less [OF c]
    show ?thesis unfolding one_line_change_def list_insert_def by auto
  next
    case (Some d)
    from apply_fix_replace [OF c Some] assms desc_line_key [OF Some]
    show ?thesis unfolding one_line_change_def by auto
  qed
qed

lemma fix_step_Inl:
  "apply_fix lines f = Inl w \<Longrightarrow> fix_step (lines, m, ws) f = (lines, m, ws @ [w])"
  by (simp add: fix_step_def)

lemma fix_step_Inr:
  "apply_fix lines f = Inr lines' \<Longrightarrow> fix_step (lines, m, ws) f = (lines', True, ws)"
  by (simp add: fix_step_def)

lemma fix_step_fold:
  "foldl fix_step (lines, m, ws) fxs = (lines', m', ws') \<Longrightarrow>
     (m' \<longleftrightarrow> m \<or> 0 < successes lines fxs) \<and>
     (lines, lines') \<in> {(a, b). one_line_change a b} ^^ successes lines fxs \<and>
     length ws' + successes lines fxs = length ws + length fxs"
proof (induction fxs arbitrary: lines m ws)
  case Nil
  then show ?case by simp
next
  case (Cons f fs)
  show ?case
  proof (cases "apply_fix lines f")
    case (Inl w)
    with Cons.prems have "foldl fix_step (lines, m, ws @ [w]) fs = (lines', m', ws')"
      by (simp add: fix_step_Inl)
    from Cons.IH [OF this] Inl show ?thesis by simp
  next
    case (Inr l1)
    with Cons.prems have "foldl fix_step (l1, True, ws) fs = (lines', m', ws')"
      by (simp add: fix_step_Inr)
    from Cons.IH [OF this] have ih: "m'" "(l1, lines') \<in> {(a, b). one_line_change a b} ^^ successes l1 fs"
      "length ws' + successes l1 fs = length ws + length fs" by simp_all
    from apply_fix_one_line [OF Inr] have "(lines, l1) \<in> {(a, b). one_line_change a b}" by simp
    from this ih(2) have "(lines, lines') \<in> {(a, b). one_line_change a b} ^^ Suc (successes l1 fs)"
      by (rule relpow_Suc_I2)
    with ih Inr show ?thesis by simp
  qed
qed

lemma fix_step_warnings:
  "foldl fix_step (lines, m, ws) fxs =
     (case foldl fix_step (lines, m, []) fxs of (l, m', ws') \<Rightarrow> (l, m', ws @ ws'))"
proof (induction fxs arbitrary: lines m ws)
  case Nil
  show ?case by simp
next
  case (Cons f fs)
  show ?case
  proof (cases "apply_fix lines f")
    case (Inl w)
    have "foldl fix_step (lines, m, ws) (f # fs) = foldl fix_step (lines, m, ws @ [w]) fs"
      using Inl by (simp add: fix_step_Inl)
    also have "\<dots> = (case foldl fix_step (lines, m, []) fs of (l, m', ws') \<Rightarrow> (l, m', (ws @ [w]) @ ws'))"
      by (rule Cons.IH)
    finally have a: "foldl fix_step (lines, m, ws) (f # fs) =
       (case foldl fix_step (lines, m, []) fs of (l, m', ws') \<Rightarrow> (l, m', ws @ [w] @ ws'))" by simp
    have "foldl fix_step (lines, m, []) (f # fs) = foldl fix_step (lines, m, [w]) fs"
      using Inl by (simp add: fix_step_Inl)
    also have "\<dots> = (case foldl fix_step (lines, m, []) fs of (l, m', ws') \<Rightarrow> (l, m', [w] @ ws'))"
      by (rule Cons.IH)
    finally show ?thesis using a by (simp split: prod.splits)
  next
    case (Inr l1)
    then have "foldl fix_step (lines, m, ws) (f # fs) = foldl fix_step (l1, True, ws) fs"
      "foldl fix_step (lines, m, []) (f # fs) = foldl fix_step (l1, True, []) fs"
      by (simp_all add: fix_step_Inr)
    with Cons.IH [of l1 True ws] show ?thesis by simp
  qed
qed

lemma update_file_written:
  "update_file content fxs = (w, ws) \<Longrightarrow>
     (w = None \<longleftrightarrow> successes (readlines content) fxs = 0) \<and>
     length ws + successes (readlines content) fxs = length fxs \<and>
     (\<forall>c'. w = Some c' \<longrightarrow>
        (\<exists>ls. c' = concat ls \<and>
           (readlines content, ls) \<in> {(a, b). one_line_change a b} ^^
              successes (readlines content) fxs))"
proof -
  assume u: "update_file content fxs = (w, ws)"
  obtain l m ws' where f: "foldl fix_step (readlines content, False, []) fxs = (l, m, ws')"
    by (cases "foldl fix_step (readlines content, False, []) fxs") auto
  from fix_step_fold [OF f] have p: "m \<longleftrightarrow> 0 < successes (readlines content) fxs"
    "(readlines content, l) \<in> {(a, b). one_line_change a b} ^^ successes (readlines content) fxs"
    "length ws' + successes (readlines content) fxs = length fxs" by simp_all
  from u f have w: "w = (if m then Some (concat l) else None)" "ws = ws'"
    by (simp_all add: update_file_def apply_fixes_def)
  show ?thesis using p w by auto
qed

lemma concat_readlines: "concat (readlines s) = s"
  by (induction s) (auto split: list.splits)

section \<open>The top-level key\<close>

text \<open>
  Claim C9, as the code has it. The key an edit looks for is \<open>models\<close> for a model edit
  and \<open>sources\<close> for a source edit. The line the patcher takes for it is the first line of
  the buffer, at any indentation, whose stripped text starts with the key followed by
  a colon; nothing checks that the line is at the top level, or a key at all. When no
  line has that prefix, the edit ends in the warning that names the key, and the step
  of the loop leaves the buffer and the \<open>modified\<close> flag as they were and goes on with
  that warning recorded.
\<close>

theorem root_key_lookup:
  "root_key_of Model = ''models'' \<and> root_key_of Source = ''sources'' \<and>
   (find_root lines (root_key_of (fix_type f)) = Some i \<longleftrightarrow>
      i < length lines \<and> startswith (strip (lines ! i)) (root_key_of (fix_type f) @ '':'') \<and>
      (\<forall>k<i. \<not> startswith (strip (lines ! k)) (root_key_of (fix_type f) @ '':''))) \<and>
   ((\<forall>k<length lines. \<not> startswith (strip (lines ! k)) (root_key_of (fix_type f) @ '':'')) \<longrightarrow>
      apply_fix lines f = Inl (NoRootKey (root_key_of (fix_type f))) \<and>
      fix_step (lines, modified, warnings) f =
        (lines, modified, warnings @ [NoRootKey (root_key_of (fix_type f))]))"
proof (intro conjI impI)
  show "root_key_of Model = ''models''" "root_key_of Source = ''sources''"
    by (simp_all add: root_key_of_def)
  show "find_root lines (root_key_of (fix_type f)) = Some i \<longleftrightarrow>
      i < length lines \<and> startswith (strip (lines ! i)) (root_key_of (fix_type f) @ '':'') \<and>
      (\<forall>k<i. \<not> startswith (strip (lines ! k)) (root_key_of (fix_type f) @ '':''))"
    by (rule find_root_Some)
next
  assume "\<forall>k<length lines. \<not> startswith (strip (lines ! k)) (root_key_of (fix_type f) @ '':'')"
  then have "find_root lines (root_key_of (fix_type f)) = None"
    by (simp only: find_root_None)
  then show w: "apply_fix lines f = Inl (NoRootKey (root_key_of (fix_type f)))"
    by (simp add: apply_fix_def locate_column_def)
  then show "fix_step (lines, modified, warnings) f =
        (lines, modified, warnings @ [NoRootKey (root_key_of (fix_type f))])"
    by (simp add: fix_step_def)
qed

theorem root_key_lookup_witness:
  "find_root (readlines orders_file) (root_key_of (fix_type fix_id)) = Some 1 \<and>
   startswith (strip (readlines orders_file ! 1)) ''models:'' \<and>
   find_root (readlines orders_file) (root_key_of (fix_type fix_source)) = None \<and>
   fix_step (readlines orders_file, False, []) fix_source =
     (readlines orders_file, False, [NoRootKey ''sources''])"
proof -
  have a: "find_root (readlines orders_file) (root_key_of (fix_type fix_id)) = Some 1"
    by code_simp
  have m: "root_key_of (fix_type fix_id) = ''models''" by code_simp
  from root_key_lookup [of "readlines orders_file" fix_id 1 False "[]",
      THEN conjunct2, THEN conjunct2, THEN conjunct1, THEN iffD1, OF a]
  have b: "startswith (strip (readlines orders_file ! 1)) ''models:''"
    by (simp add: m)
  have c: "find_root (readlines orders_file) (root_key_of (fix_type fix_source)) = None"
    by code_simp
  then have n: "\<forall>k<length (readlines orders_file).
      \<not> startswith (strip (readlines orders_file ! k)) (root_key_of (fix_type fix_source) @ '':'')"
    by (simp only: find_root_None)
  have s: "root_key_of (fix_type fix_source) = ''sources''" by code_simp
  from root_key_lookup [of "readlines orders_file" fix_source 0 False "[]",
      THEN conjunct2, THEN conjunct2, THEN conjunct2, THEN mp, OF n]
  have d: "fix_step (readlines orders_file, False, []) fix_source =
     (readlines orders_file, False, [NoRootKey ''sources''])"
    by (simp add: s)
  from a b c d show ?thesis by (intro conjI)
qed

text \<open>
  The claim as it was written says that the line located is the top-level key line.
  In \<open>seeds_file\<close> the top-level key \<open>models:\<close> is line 5, at indentation 0, and the
  edit's column is found from there. The patcher takes line 4 instead, a line of text
  inside a block scalar at indentation 6, and the edit is dropped with the warning
  that its model is missing.
\<close>

theorem root_key_lookup_counterexample:
  "find_root (readlines seeds_file) (root_key_of (fix_type fix_status)) = Some 4 \<and>
   get_indent (readlines seeds_file ! 4) = 6 \<and>
   strip (readlines seeds_file ! 5) = ''models:'' \<and>
   get_indent (readlines seeds_file ! 5) = 0 \<and>
   locate_column (drop 5 (readlines seeds_file)) fix_status = Inr 3 \<and>
   apply_fix (readlines seeds_file) fix_status = Inl (NoParent Model (Some ''orders''))"
  by code_simp


section \<open>Replacing or inserting the description line\<close>

text \<open>
  On the line buffer. Let the lookups of an edit reach the column's name line \<open>c\<close>. If
  the block scan finds a \<open>description:\<close> line \<open>d\<close> in the column's block, the edit
  changes element \<open>d\<close> of the buffer only: the new element is the old text before the
  first colon, then a colon and a space, then the new value between double quotes with
  its double quotes escaped, then a newline; the old text before the first colon is
  the line's indentation followed by \<open>description\<close>. If the scan finds none, the edit
  inserts one element right after element \<open>c\<close>: two spaces more than the indentation of
  line \<open>c\<close>, then \<open>description: \<close> and the quoted value. This is about the elements of
  the buffer; what it means for the lines of the written file depends on the
  newlines in them, see below.
\<close>

theorem apply_fix_buffer:
  assumes "locate_column lines f = Inr c"
  shows "c < length lines \<and>
    (\<forall>d. find_child_block lines c (Some ''description'') None = Some d \<longrightarrow>
       d < length lines \<and>
       apply_fix lines f =
         Inr (lines[d := takeWhile (\<lambda>x. x \<noteq> CHR '':'') (lines ! d) @ '': '' @
                [dquote] @ escape_quotes (fix_new_desc f) @ [dquote, newline]]) \<and>
       takeWhile (\<lambda>x. x \<noteq> CHR '':'') (lines ! d) =
         takeWhile isspace (lines ! d) @ ''description'') \<and>
    (find_child_block lines c (Some ''description'') None = None \<longrightarrow>
       apply_fix lines f =
         Inr (take (Suc c) lines @
              [replicate (get_indent (lines ! c) + 2) CHR '' '' @ ''description: '' @
                [dquote] @ escape_quotes (fix_new_desc f) @ [dquote, newline]] @
              drop (Suc c) lines) \<and>
       get_indent (replicate (get_indent (lines ! c) + 2) CHR '' '' @ ''description: '' @
                [dquote] @ escape_quotes (fix_new_desc f) @ [dquote, newline]) =
         get_indent (lines ! c) + 2)"
proof (intro conjI allI impI)
  show "c < length lines" using assms by (rule locate_column_less)
next
  fix d assume d: "find_child_block lines c (Some ''description'') None = Some d"
  from desc_line_key [OF d] show "d < length lines" by simp
  from apply_fix_replace [OF assms d]
  show "apply_fix lines f =
         Inr (lines[d := takeWhile (\<lambda>x. x \<noteq> CHR '':'') (lines ! d) @ '': '' @
                [dquote] @ escape_quotes (fix_new_desc f) @ [dquote, newline]])"
    by (simp add: replaced_line_def split1_0 new_desc_str_def)
  from desc_line_key [OF d] have "key_match (Some ''description'') (strip (lines ! d))" by simp
  then show "takeWhile (\<lambda>x. x \<noteq> CHR '':'') (lines ! d) =
         takeWhile isspace (lines ! d) @ ''description''"
    by (rule key_token_preserved) simp
next
  assume n: "find_child_block lines c (Some ''description'') None = None"
  from apply_fix_insert [OF assms n]
  show "apply_fix lines f =
         Inr (take (Suc c) lines @
              [replicate (get_indent (lines ! c) + 2) CHR '' '' @ ''description: '' @
                [dquote] @ escape_quotes (fix_new_desc f) @ [dquote, newline]] @
              drop (Suc c) lines)"
    by (simp add: list_insert_def inserted_line_def new_desc_str_def)
  show "get_indent (replicate (get_indent (lines ! c) + 2) CHR '' '' @ ''description: '' @
                [dquote] @ escape_quotes (fix_new_desc f) @ [dquote, newline]) =
         get_indent (lines ! c) + 2"
    by (rule get_indent_inserted)
qed

theorem apply_fix_buffer_witness:
  "locate_column (readlines orders_file) fix_id = Inr 4 \<and>
   find_child_block (readlines orders_file) 4 (Some ''description'') None = Some 5 \<and>
   apply_fix (readlines orders_file) fix_id =
     Inr ((readlines orders_file)
            [5 := ''        description: '' @ [dquote] @ ''new'' @ [dquote, newline]]) \<and>
   locate_column (readlines orders_file) fix_status = Inr 6 \<and>
   find_child_block (readlines orders_file) 6 (Some ''description'') None = None \<and>
   apply_fix (readlines orders_file) fix_status =
     Inr (readlines orders_file @
            [''        description: '' @ [dquote] @ ''new'' @ [dquote, newline]])"
proof -
  have a: "locate_column (readlines orders_file) fix_id = Inr 4"
    by code_simp
  have b: "find_child_block (readlines orders_file) 4 (Some ''description'') None = Some 5"
    by code_simp
  have c: "locate_column (readlines orders_file) fix_status = Inr 6"
    by code_simp
  have d: "find_child_block (readlines orders_file) 6 (Some ''description'') None = None"
    by code_simp
  from apply_fix_buffer [OF a, THEN conjunct2, THEN conjunct1, rule_format, OF b]
  have "apply_fix (readlines orders_file) fix_id =
         Inr ((readlines orders_file)[5 := takeWhile (\<lambda>x. x \<noteq> CHR '':'') (readlines orders_file ! 5) @ '': '' @
                [dquote] @ escape_quotes (fix_new_desc fix_id) @ [dquote, newline]])"
    by (elim conjE)
  also have "\<dots> = Inr ((readlines orders_file)
            [5 := ''        description: '' @ [dquote] @ ''new'' @ [dquote, newline]])"
    by code_simp
  finally have e: "apply_fix (readlines orders_file) fix_id =
     Inr ((readlines orders_file)
            [5 := ''        description: '' @ [dquote] @ ''new'' @ [dquote, newline]])" .
  from apply_fix_buffer [OF c, THEN conjunct2, THEN conjunct2, rule_format, OF d]
  have "apply_fix (readlines orders_file) fix_status =
         Inr (take (Suc 6) (readlines orders_file) @
              [replicate (get_indent (readlines orders_file ! 6) + 2) CHR '' '' @ ''description: '' @
                [dquote] @ escape_quotes (fix_new_desc fix_status) @ [dquote, newline]] @
              drop (Suc 6) (readlines orders_file))"
    by (elim conjE)
  also have "\<dots> = Inr (readlines orders_file @
            [''        description: '' @ [dquote] @ ''new'' @ [dquote, newline]])"
    by code_simp
  finally have f: "apply_fix (readlines orders_file) fix_status =
     Inr (readlines orders_file @
            [''        description: '' @ [dquote] @ ''new'' @ [dquote, newline]])" .
  from a b c d e f show ?thesis by (intro conjI)
qed


text \<open>
  Claim C2. The claim says that an edit for a column without a description line
  inserts a new line right after the column's name line, two spaces deeper, and that
  an edit for a column with one rewrites that line only. The file is written as the
  concatenation of the buffer, so both fail where an element does not end in exactly
  one newline. In \<open>unterminated_file\<close> the name line of \<open>status\<close> is the last line and has
  no newline: the written text continues that very line with the description, and the
  file has no new line. With a description that ends in a newline, the rewritten
  description line of \<open>id\<close> becomes two lines of the file, the second a lone double
  quote.
\<close>

theorem insert_joins_unterminated_line:
  "update_file unterminated_file [fix_status] =
     (Some (unterminated_file @ ''        description: '' @ [dquote] @ ''new'' @ [dquote, newline]),
      []) \<and>
   last (readlines (unterminated_file @
           ''        description: '' @ [dquote] @ ''new'' @ [dquote, newline])) =
     ''      - name: status        description: '' @ [dquote] @ ''new'' @ [dquote, newline] \<and>
   map_option (\<lambda>t. length (readlines t)) (fst (update_file orders_file [fix_block])) =
     Some (length (readlines orders_file) + 1) \<and>
   map_option (\<lambda>t. readlines t ! 6) (fst (update_file orders_file [fix_block])) =
     Some [dquote, newline]"
  by code_simp


section \<open>What a write changes\<close>

text \<open>
  Claim C4. The claim says that a write changes no line of the file other than the one
  replaced or inserted line of each successful edit. For \<open>unterminated_file\<close> one edit
  succeeds, an insertion; the written file has as many lines as before, and its last
  line, the name line of the column, is no longer the line it was.
\<close>

theorem write_changes_existing_line:
  "successes (readlines unterminated_file) [fix_status] = 1 \<and>
   map_option readlines (fst (update_file unterminated_file [fix_status])) =
     Some (butlast (readlines unterminated_file) @
       [''      - name: status        description: '' @ [dquote] @ ''new'' @ [dquote, newline]]) \<and>
   last (readlines unterminated_file) = ''      - name: status'' \<and>
   map_option (\<lambda>t. length (readlines t)) (fst (update_file unterminated_file [fix_status])) =
     Some (length (readlines unterminated_file))"
  by code_simp

section \<open>Escaping and reading back\<close>

text \<open>
  A description without a backslash and without a line break reads back as itself.
\<close>

lemma dq_body_escape:
  "backslash \<notin> set d \<Longrightarrow> newline \<notin> set d \<Longrightarrow>
     dq_body (escape_quotes d @ [dquote]) = Some d"
  by (induction d) (auto simp: escape_quotes_def dquote_def backslash_def newline_def)

lemma read_back_without_backslash:
  "backslash \<notin> set d \<Longrightarrow> newline \<notin> set d \<Longrightarrow>
     read_double_quoted (new_desc_str d) = Some d"
  by (simp add: read_double_quoted_def new_desc_str_def dq_body_escape)

text \<open>
  Claim C6. The claim says that a description with a double quote in it is written
  with that quote escaped and reads back as the original string. \<open>escape_quotes\<close>
  escapes the double quotes and nothing else. In \<open>quoted_backslash\<close> each double quote
  already follows a backslash; in the written value that backslash and the inserted
  one form an escaped backslash, so the scalar ends at the first of the quotes, after
  \<open>say\<close>, a space and one backslash, and what follows it is no part of a scalar: the
  written value does not read back as the description, and not as any string.
\<close>

theorem escape_misses_backslash:
  "dquote \<in> set quoted_backslash \<and>
   new_desc_str quoted_backslash =
     [dquote] @ ''say '' @ [backslash, backslash, dquote] @
       ''hi'' @ [backslash, backslash, dquote] @ [dquote] \<and>
   read_double_quoted (take 8 (new_desc_str quoted_backslash)) = Some (''say '' @ [backslash]) \<and>
   read_double_quoted (new_desc_str quoted_backslash) = None \<and>
   read_double_quoted (new_desc_str quoted_backslash) \<noteq> Some quoted_backslash"
  by code_simp

section \<open>What the collector builds\<close>

lemma alist_append_keys:
  "map fst (alist_append xs k v) = (if k \<in> set (map fst xs) then map fst xs else map fst xs @ [k])"
  by (induction xs) force+

lemma alist_append_distinct:
  "distinct (map fst xs) \<Longrightarrow> distinct (map fst (alist_append xs k v))"
  by (simp add: alist_append_keys)



lemma group_snoc: "group_descs (ps @ [p]) = alist_append (group_descs ps) (fst p) (snd p)"
  by (simp add: group_descs_def)

lemma group_keys_set: "set (map fst (group_descs ps)) = fst ` set ps"
  by (induction ps rule: rev_induct) (auto simp: group_snoc alist_append_keys group_descs_def)

lemma group_distinct: "distinct (map fst (group_descs ps))"
proof (induction ps rule: rev_induct)
  case Nil
  show ?case by (simp add: group_descs_def)
next
  case (snoc p ps)
  then show ?case unfolding group_snoc by (rule alist_append_distinct)
qed





lemma record_occ_keys:
  "map fst (record_occ cm c d occ) = (if c \<in> set (map fst cm) then map fst cm else map fst cm @ [c])"
  by (induction cm) force+

lemma record_occ_map_of:
  "map_of (record_occ cm c d occ) c' =
     (if c' = c then Some (alist_append (case map_of cm c of None \<Rightarrow> [] | Some dd \<Rightarrow> dd) d occ)
      else map_of cm c')"
  by (induction cm) auto

lemma collect_snoc: "collect (evs @ [e]) = record_occ (collect evs) (fst e) (fst (snd e)) (snd (snd e))"
  by (simp add: collect_def record_event_def split: prod.splits)

lemma collect_Nil: "collect [] = []"
  by (simp add: collect_def)

lemma collect_distinct: "distinct (map fst (collect evs))"
  by (induction evs rule: rev_induct) (simp_all add: collect_snoc record_occ_keys collect_Nil)

lemma collect_keys_set: "set (map fst (collect evs)) = fst ` set evs"
  by (induction evs rule: rev_induct) (auto simp: collect_snoc record_occ_keys collect_Nil)

lemma collect_map_of:
  "map_of (collect evs) c =
     (if c \<in> fst ` set evs then Some (group_descs (column_pairs evs c)) else None)"
proof (induction evs rule: rev_induct)
  case Nil
  show ?case by (simp add: collect_def)
next
  case (snoc e evs)
  show ?case
  proof (cases "c = fst e")
    case True
    show ?thesis
    proof (cases "c \<in> fst ` set evs")
      case T: True
      with snoc.IH True show ?thesis
        by (simp add: collect_snoc record_occ_map_of column_pairs_def group_snoc)
    next
      case False
      then have "filter (\<lambda>e. fst e = c) evs = []" by (auto simp: filter_empty_conv)
      with snoc.IH True False show ?thesis
        by (simp add: collect_snoc record_occ_map_of column_pairs_def group_descs_def)
    qed
  next
    case False
    with snoc.IH show ?thesis
      by (simp add: collect_snoc record_occ_map_of column_pairs_def)
  qed
qed

lemma collect_entry:
  assumes "(c, dd) \<in> set (collect evs)"
  shows "dd = group_descs (column_pairs evs c) \<and> c \<in> fst ` set evs"
proof -
  from assms collect_distinct [of evs] have "map_of (collect evs) c = Some dd" by simp
  then show ?thesis by (auto simp: collect_map_of split: if_splits)
qed

section \<open>The description the reconciler picks\<close>



lemma non_empty_descs_Nil:
  "non_empty_descs (group_descs ps) = [] \<longleftrightarrow> (\<forall>p\<in>set ps. fst p = [])"
proof -
  have "non_empty_descs (group_descs ps) = [] \<longleftrightarrow>
      (\<forall>d\<in>set (map fst (group_descs ps)). d = [])"
    by (auto simp: non_empty_descs_def filter_empty_conv)
  then show ?thesis unfolding group_keys_set by auto
qed

lemma group_descs_many:
  "1 < length (group_descs ps) \<longleftrightarrow> (\<exists>p\<in>set ps. \<exists>q\<in>set ps. fst p \<noteq> fst q)"
proof
  assume l: "1 < length (group_descs ps)"
  then obtain x y rest where d: "group_descs ps = x # y # rest"
    by (cases "group_descs ps"; cases "tl (group_descs ps)") auto
  with group_distinct [of ps] have ne: "fst x \<noteq> fst y" by simp
  from d have "fst x \<in> set (map fst (group_descs ps))" "fst y \<in> set (map fst (group_descs ps))"
    by simp_all
  then have "fst x \<in> fst ` set ps" "fst y \<in> fst ` set ps"
    by (simp_all only: group_keys_set)
  with ne show "\<exists>p\<in>set ps. \<exists>q\<in>set ps. fst p \<noteq> fst q" by force
next
  assume "\<exists>p\<in>set ps. \<exists>q\<in>set ps. fst p \<noteq> fst q"
  then obtain p q where pq: "p \<in> set ps" "q \<in> set ps" "fst p \<noteq> fst q" by blast
  then have "fst p \<in> fst ` set ps" "fst q \<in> fst ` set ps" by simp_all
  then have k: "fst p \<in> set (map fst (group_descs ps))" "fst q \<in> set (map fst (group_descs ps))"
    by (simp_all only: group_keys_set)
  show "1 < length (group_descs ps)"
  proof (rule ccontr)
    assume "\<not> 1 < length (group_descs ps)"
    then have "group_descs ps = [] \<or> (\<exists>x. group_descs ps = [x])"
      by (cases "group_descs ps"; cases "tl (group_descs ps)") auto
    with k pq(3) show False by auto
  qed
qed


section \<open>The loop over the columns\<close>


lemma occ_step_pair:
  "occ_step fm col best (fbf, out) occ =
     (if fm then alist_append fbf (occ_file occ) (fix_of col best occ) else fbf,
      out @ [Location occ])"
  by (simp add: occ_step_def)

lemma desc_step_pair:
  "desc_step fm col best (fbf, out) (desc, occs) =
     (if desc = best then (fbf, out)
      else foldl (occ_step fm col best) (fbf, out @ [OtherDescription (length occs) desc]) occs)"
  by (simp add: desc_step_def)




lemma analyse_column_skip:
  "non_empty_descs dd = [] \<or> length dd \<le> 1 \<Longrightarrow> analyse_column fm st (c, dd) = st"
  by (auto simp: analyse_column_def split: prod.splits)



section \<open>The run as a whole\<close>

lemma foldl_invariant:
  assumes "\<And>s x. P s \<Longrightarrow> P (f s x)" and "P s"
  shows "P (foldl f s xs)"
  using assms(2) by (induction xs arbitrary: s) (simp_all add: assms(1))

lemma foldl_agree:
  assumes "\<And>s s' x. R s s' \<Longrightarrow> R (f s x) (f s' x)" and "R s s'"
  shows "R (foldl f s xs) (foldl f s' xs)"
  using assms(2) by (induction xs arbitrary: s s') (simp_all add: assms(1))

lemma collect_step_events:
  "fst (collect_step load (cm, out) fl) = foldl record_event cm (file_events load fl)"
  by (cases fl) (simp add: collect_step_def file_events_def split: sum.splits option.splits)

lemma collect_fold:
  "fst (foldl (collect_step load) (cm, out) files) =
     foldl record_event cm (events_of load files)"
proof (induction files arbitrary: cm out)
  case Nil
  show ?case by (simp add: events_of_def)
next
  case (Cons fl files)
  obtain cm1 out1 where s: "collect_step load (cm, out) fl = (cm1, out1)"
    by (cases "collect_step load (cm, out) fl")
  from collect_step_events [of load cm out fl] s
  have cm1: "cm1 = foldl record_event cm (file_events load fl)" by simp
  have "fst (foldl (collect_step load) (cm, out) (fl # files)) =
        fst (foldl (collect_step load) (cm1, out1) files)" by (simp add: s)
  also have "\<dots> = foldl record_event cm1 (events_of load files)" by (rule Cons.IH)
  also have "\<dots> = foldl record_event cm (events_of load (fl # files))"
    by (simp add: cm1 events_of_def)
  finally show ?case .
qed

lemma collect_run:
  "fst (foldl (collect_step load) ([], out) files) = collect (events_of load files)"
  by (simp add: collect_fold collect_def)

lemma collect_step_messages:
  "set out \<subseteq> set (snd (collect_step load (cm, out) fl))"
  by (cases fl) (auto simp: collect_step_def split: sum.splits option.splits)

lemma collect_fold_messages:
  "set (snd st) \<subseteq> set (snd (foldl (collect_step load) st files))"
proof (induction files arbitrary: st)
  case Nil
  show ?case by simp
next
  case (Cons fl files)
  obtain cm out where st: "st = (cm, out)" by (cases st)
  have "set (snd st) \<subseteq> set (snd (collect_step load st fl))"
    unfolding st using collect_step_messages [of out load cm fl] by simp
  also have "\<dots> \<subseteq> set (snd (foldl (collect_step load) (collect_step load st fl) files))"
    by (rule Cons.IH)
  finally show ?case by simp
qed

lemma occ_step_agree:
  "fst s = fst s' \<Longrightarrow> fst (occ_step fm col best s occ) = fst (occ_step fm col best s' occ)"
  by (cases s; cases s') (simp add: occ_step_pair)

lemma occ_fold_agree:
  "fst s = fst s' \<Longrightarrow>
     fst (foldl (occ_step fm col best) s occs) = fst (foldl (occ_step fm col best) s' occs)"
  by (rule foldl_agree [where R = "\<lambda>s s'. fst s = fst s'"]) (rule occ_step_agree)

lemma desc_step_agree:
  "fst s = fst s' \<Longrightarrow> fst (desc_step fm col best s item) = fst (desc_step fm col best s' item)"
proof (cases s; cases s'; cases item)
  fix fbf out fbf' out' desc occs
  assume a: "fst s = fst s'" "s = (fbf, out)" "s' = (fbf', out')" "item = (desc, occs)"
  then have f: "fbf' = fbf" by simp
  show ?thesis
    unfolding a(2,3,4) f desc_step_pair
    using occ_fold_agree [of "(fbf, out @ [OtherDescription (length occs) desc])"
        "(fbf, out' @ [OtherDescription (length occs) desc])" fm col best occs]
    by simp
qed

lemma desc_fold_agree:
  "fst s = fst s' \<Longrightarrow>
     fst (foldl (desc_step fm col best) s dd) = fst (foldl (desc_step fm col best) s' dd)"
  by (rule foldl_agree [where R = "\<lambda>s s'. fst s = fst s'"]) (rule desc_step_agree)

lemma analyse_column_agree:
  assumes "same_analysis s s'"
  shows "same_analysis (analyse_column fm s item) (analyse_column fm s' item)"
proof -
  obtain n fbf out where s: "s = (n, fbf, out)" by (cases s)
  obtain n' fbf' out' where s': "s' = (n', fbf', out')" by (cases s')
  obtain c dd where item: "item = (c, dd)" by (cases item)
  from assms have e: "n' = n" "fbf' = fbf" by (simp_all add: same_analysis_def s s')
  let ?m = "[InconsistencyFor c,
      BestDescription (length (snd (sorted_descs dd ! 0))) (best_desc dd)]"
  from desc_fold_agree [of "(fbf, out @ ?m)" "(fbf, out' @ ?m)" fm c "best_desc dd" dd]
  have "fst (foldl (desc_step fm c (best_desc dd)) (fbf, out @ ?m) dd) =
        fst (foldl (desc_step fm c (best_desc dd)) (fbf, out' @ ?m) dd)" by simp
  then show ?thesis
    unfolding s s' item e
    by (simp add: analyse_column_def same_analysis_def split: prod.splits)
qed

lemma analyse_agree:
  "same_analysis (analyse fm cm out) (analyse fm cm out')"
  unfolding analyse_def
proof (rule foldl_agree [where R = same_analysis])
  show "same_analysis (0, [], out) (0, [], out')" by (simp add: same_analysis_def)
qed (rule analyse_column_agree)

lemma analyse_count: "fst (analyse fm cm out) = fst (analyse fm cm [])"
  using analyse_agree [of fm cm out "[]"] by (simp add: same_analysis_def)

lemma analyse_fixes: "fst (snd (analyse fm cm out)) = fst (snd (analyse fm cm []))"
  using analyse_agree [of fm cm out "[]"] by (simp add: same_analysis_def)

lemma occ_step_distinct:
  "distinct (map fst (fst s)) \<Longrightarrow> distinct (map fst (fst (occ_step fm col best s occ)))"
  by (cases s) (simp add: occ_step_pair alist_append_distinct)

lemma desc_step_distinct:
  assumes "distinct (map fst (fst s))"
  shows "distinct (map fst (fst (desc_step fm col best s item)))"
proof -
  obtain fbf out where s: "s = (fbf, out)" by (cases s)
  obtain desc occs where item: "item = (desc, occs)" by (cases item)
  have "distinct (map fst (fst (foldl (occ_step fm col best)
      (fbf, out @ [OtherDescription (length occs) desc]) occs)))"
    by (rule foldl_invariant [where P = "\<lambda>s. distinct (map fst (fst s))"])
       (use assms s in \<open>simp_all add: occ_step_distinct\<close>)
  with assms show ?thesis unfolding s item desc_step_pair by simp
qed

lemma analyse_column_distinct:
  assumes "distinct (map fst (fst (snd s)))"
  shows "distinct (map fst (fst (snd (analyse_column fm s item))))"
proof -
  obtain n fbf out where s: "s = (n, fbf, out)" by (cases s)
  obtain c dd where item: "item = (c, dd)" by (cases item)
  let ?m = "[InconsistencyFor c,
      BestDescription (length (snd (sorted_descs dd ! 0))) (best_desc dd)]"
  have "distinct (map fst (fst (foldl (desc_step fm c (best_desc dd)) (fbf, out @ ?m) dd)))"
    by (rule foldl_invariant [where P = "\<lambda>s. distinct (map fst (fst s))"])
       (use assms s in \<open>simp_all add: desc_step_distinct\<close>)
  with assms show ?thesis
    unfolding s item by (simp add: analyse_column_def split: prod.splits)
qed

lemma analyse_distinct: "distinct (map fst (fst (snd (analyse fm cm out))))"
  unfolding analyse_def
  by (rule foldl_invariant [where P = "\<lambda>s. distinct (map fst (fst (snd s)))"])
     (simp_all add: analyse_column_distinct)

lemma pending_fixes_distinct: "distinct (map fst (pending_fixes load files fm))"
  by (simp add: pending_fixes_def analyse_distinct)

section \<open>The loop over the files to patch\<close>

lemma write_file_paths: "map fst (write_file files p c) = map fst files"
  by (induction files) (auto simp: write_file_def)

lemma write_file_map_of:
  "map_of (write_file files p c) q =
     (if q = p then map_option (\<lambda>_. c) (map_of files p) else map_of files q)"
  by (induction files) (auto simp: write_file_def)

lemma update_step_paths: "map fst (fst (update_step (files, out) item)) = map fst files"
  by (cases item)
     (simp add: update_step_def write_file_paths split: option.splits prod.splits)

lemma update_step_map_of:
  "map_of (fst (update_step (files, out) (p, fxs))) q =
     (if q = p then map_option (\<lambda>content. written content fxs) (map_of files p)
      else map_of files q)"
  by (simp add: update_step_def write_file_map_of written_def split: option.splits prod.splits)

lemma update_step_agree:
  "fst s = fst s' \<Longrightarrow> fst (update_step s item) = fst (update_step s' item)"
  by (cases s; cases s'; cases item)
     (simp add: update_step_def split: option.splits prod.splits)

lemma update_fold_agree:
  "fst (foldl update_step (files, out) fbf) = fst (foldl update_step (files, []) fbf)"
proof (rule foldl_agree [where R = "\<lambda>s s'. fst s = fst s'"])
  show "fst (files, out) = fst (files, [])" by simp
qed (rule update_step_agree)

lemma update_fold_paths: "map fst (fst (foldl update_step (files, out) fbf)) = map fst files"
proof (induction fbf arbitrary: files out)
  case Nil
  show ?case by simp
next
  case (Cons item fbf)
  obtain files1 out1 where s: "update_step (files, out) item = (files1, out1)"
    by (cases "update_step (files, out) item")
  from update_step_paths [of files out item] s have "map fst files1 = map fst files" by simp
  with Cons.IH [of files1 out1] s show ?case by simp
qed

lemma update_fold_map_of:
  "distinct (map fst fbf) \<Longrightarrow>
     map_of (fst (foldl update_step (files, out) fbf)) q =
       (case map_of fbf q of
          None \<Rightarrow> map_of files q
        | Some fxs \<Rightarrow> map_option (\<lambda>content. written content fxs) (map_of files q))"
proof (induction fbf arbitrary: files out)
  case Nil
  show ?case by simp
next
  case (Cons item fbf)
  obtain p fxs where item: "item = (p, fxs)" by (cases item)
  obtain files1 out1 where s: "update_step (files, out) (p, fxs) = (files1, out1)"
    by (cases "update_step (files, out) (p, fxs)")
  from Cons.prems item have d: "distinct (map fst fbf)" and n: "p \<notin> fst ` set fbf" by simp_all
  from update_step_map_of [of files out p fxs] s
  have m: "map_of files1 r =
     (if r = p then map_option (\<lambda>content. written content fxs) (map_of files p)
      else map_of files r)" for r by simp
  from n have np: "map_of fbf p = None" by (simp add: map_of_eq_None_iff)
  have "map_of (fst (foldl update_step (files, out) (item # fbf))) q =
        map_of (fst (foldl update_step (files1, out1) fbf)) q"
    by (simp add: item s)
  also have "\<dots> = (case map_of fbf q of
          None \<Rightarrow> map_of files1 q
        | Some fxs' \<Rightarrow> map_option (\<lambda>content. written content fxs') (map_of files1 q))"
    by (rule Cons.IH [OF d])
  also have "\<dots> = (case map_of (item # fbf) q of
          None \<Rightarrow> map_of files q
        | Some fxs' \<Rightarrow> map_option (\<lambda>content. written content fxs') (map_of files q))"
    using np by (cases "q = p") (simp_all add: item m split: option.splits)
  finally show ?case .
qed

lemma update_step_messages: "set (snd s) \<subseteq> set (snd (update_step s item))"
  by (cases s; cases item)
     (auto simp: update_step_def split: option.splits prod.splits)

lemma update_fold_messages: "set (snd s) \<subseteq> set (snd (foldl update_step s fbf))"
proof (induction fbf arbitrary: s)
  case Nil
  show ?case by simp
next
  case (Cons item fbf)
  have "set (snd s) \<subseteq> set (snd (update_step s item))" by (rule update_step_messages)
  also have "\<dots> \<subseteq> set (snd (foldl update_step (update_step s item) fbf))" by (rule Cons.IH)
  finally show ?case by simp
qed

lemma update_step_warns:
  assumes "map_of files p = Some content"
  shows "Warn p ` set (snd (update_file content fxs)) \<subseteq>
         set (snd (update_step (files, out) (p, fxs)))"
  using assms by (auto simp: update_step_def split: option.splits prod.splits)

lemma update_fold_warns:
  "distinct (map fst fbf) \<Longrightarrow> (p, fxs) \<in> set fbf \<Longrightarrow> map_of files p = Some content \<Longrightarrow>
     Warn p ` set (snd (update_file content fxs)) \<subseteq> set (snd (foldl update_step (files, out) fbf))"
proof (induction fbf arbitrary: files out)
  case Nil
  then show ?case by simp
next
  case (Cons item fbf)
  show ?case
  proof (cases "item = (p, fxs)")
    case True
    have "Warn p ` set (snd (update_file content fxs)) \<subseteq>
         set (snd (update_step (files, out) (p, fxs)))"
      using Cons.prems(3) by (rule update_step_warns)
    also have "\<dots> \<subseteq> set (snd (foldl update_step (update_step (files, out) (p, fxs)) fbf))"
      by (rule update_fold_messages)
    finally show ?thesis by (simp add: True)
  next
    case False
    obtain p' fxs' where item: "item = (p', fxs')" by (cases item)
    from False Cons.prems(2) have mem: "(p, fxs) \<in> set fbf" by simp
    with Cons.prems(1) item have ne: "p \<noteq> p'" by force
    from Cons.prems(1) have d: "distinct (map fst fbf)" by simp
    obtain files1 out1 where s: "update_step (files, out) (p', fxs') = (files1, out1)"
      by (cases "update_step (files, out) (p', fxs')")
    from update_step_map_of [of files out p' fxs' p] s ne Cons.prems(3)
    have "map_of files1 p = Some content" by simp
    from Cons.IH [OF d mem this, of out1] s item show ?thesis by simp
  qed
qed

lemma analyse_column_dry:
  "fst (snd s) = [] \<Longrightarrow> fst (snd (analyse_column False s item)) = []"
proof -
  assume a: "fst (snd s) = []"
  obtain n fbf out where s: "s = (n, fbf, out)" by (cases s)
  obtain c dd where item: "item = (c, dd)" by (cases item)
  have occ: "fst (foldl (occ_step False c b) st occs) = fst st" for b st occs
    by (induction occs arbitrary: st) (simp_all add: occ_step_def split: prod.splits)
  have desc: "fst (foldl (desc_step False c b) st xs) = fst st" for b st xs
  proof (induction xs arbitrary: st)
    case Nil
    show ?case by simp
  next
    case (Cons x xs)
    obtain d occs where x: "x = (d, occs)" by (cases x)
    obtain f0 o0 where st: "st = (f0, o0)" by (cases st)
    have "fst (desc_step False c b st x) = fst st"
      unfolding x st desc_step_pair using occ by simp
    with Cons.IH [of "desc_step False c b st x"] show ?case by simp
  qed
  from a s have "fbf = []" by simp
  then show ?thesis
    unfolding s item using desc by (simp add: analyse_column_def split: prod.splits)
qed

lemma analyse_dry: "fst (snd (analyse False cm out)) = []"
  unfolding analyse_def
  by (rule foldl_invariant [where P = "\<lambda>s. fst (snd s) = []"])
     (simp_all add: analyse_column_dry)

lemma check_and_fix_unfold:
  assumes "foldl (collect_step load) ([], [Scanning (length files)]) files = (cm, out1)"
    and "analyse fm cm out1 = (n, fbf, out2)"
    and "foldl update_step
           (files, out2 @ [if n = 0 then NoInconsistencies else FoundInconsistent n] @
              [ApplyingFixes]) fbf = (files', out4)"
  shows "check_and_fix load files fm =
     (if fm \<and> fbf \<noteq> []
      then \<lparr>files_after = files', inconsistent = n, printed = out4 @ [FixesApplied]\<rparr>
      else \<lparr>files_after = files, inconsistent = n,
             printed = out2 @ [if n = 0 then NoInconsistencies else FoundInconsistent n]\<rparr>)"
  using assms(3) by (simp add: check_and_fix_def assms(1) assms(2) Let_def)

lemma check_and_fix_count:
  "inconsistent (check_and_fix load files fm) = fst (analyse fm (collect (events_of load files)) [])"
proof -
  obtain cm out1 where c: "foldl (collect_step load) ([], [Scanning (length files)]) files = (cm, out1)"
    by (cases "foldl (collect_step load) ([], [Scanning (length files)]) files")
  with collect_run [of load "[Scanning (length files)]" files]
  have cm: "cm = collect (events_of load files)" by simp
  obtain n fbf out2 where a: "analyse fm cm out1 = (n, fbf, out2)"
    by (cases "analyse fm cm out1")
  with analyse_count [of fm cm out1] have n: "n = fst (analyse fm cm [])" by simp
  obtain files' out4 where u: "foldl update_step
           (files, out2 @ [if n = 0 then NoInconsistencies else FoundInconsistent n] @
              [ApplyingFixes]) fbf = (files', out4)"
    by (cases "foldl update_step
           (files, out2 @ [if n = 0 then NoInconsistencies else FoundInconsistent n] @
              [ApplyingFixes]) fbf")
  have "inconsistent (check_and_fix load files fm) = n"
    unfolding check_and_fix_unfold [OF c a u] by simp
  with n cm show ?thesis by simp
qed

lemma check_and_fix_files:
  "files_after (check_and_fix load files fm) =
     (if fm then fst (foldl update_step (files, []) (pending_fixes load files fm)) else files)"
proof -
  obtain cm out1 where c: "foldl (collect_step load) ([], [Scanning (length files)]) files = (cm, out1)"
    by (cases "foldl (collect_step load) ([], [Scanning (length files)]) files")
  with collect_run [of load "[Scanning (length files)]" files]
  have cm: "cm = collect (events_of load files)" by simp
  obtain n fbf out2 where a: "analyse fm cm out1 = (n, fbf, out2)"
    by (cases "analyse fm cm out1")
  with analyse_fixes [of fm cm out1] have fbf: "fbf = pending_fixes load files fm"
    by (simp add: pending_fixes_def cm)
  obtain files' out4 where u: "foldl update_step
           (files, out2 @ [if n = 0 then NoInconsistencies else FoundInconsistent n] @
              [ApplyingFixes]) fbf = (files', out4)"
    by (cases "foldl update_step
           (files, out2 @ [if n = 0 then NoInconsistencies else FoundInconsistent n] @
              [ApplyingFixes]) fbf")
  have r: "files_after (check_and_fix load files fm) = (if fm \<and> fbf \<noteq> [] then files' else files)"
    unfolding check_and_fix_unfold [OF c a u] by simp
  from u update_fold_agree [of files "out2 @ [if n = 0 then NoInconsistencies else FoundInconsistent n] @
              [ApplyingFixes]" fbf]
  have f: "files' = fst (foldl update_step (files, []) fbf)" by simp
  show ?thesis
  proof (cases fm)
    case False
    with r show ?thesis by simp
  next
    case True
    have "(if fbf \<noteq> [] then files' else files) = fst (foldl update_step (files, []) fbf)"
      using f by (cases "fbf = []") simp_all
    with r True have "files_after (check_and_fix load files fm) =
        fst (foldl update_step (files, []) fbf)" by simp
    with True show ?thesis unfolding fbf by simp
  qed
qed

section \<open>The canonical description\<close>






section \<open>Columns the reconciler skips\<close>

text \<open>
  Claim C7. A column whose dict of descriptions has no non-empty key, or has exactly
  one key, leaves the state of the loop as it was: the count of inconsistent columns,
  the pending edits and the printed report are all unchanged. In terms of what was
  collected: a column of the collected model all of whose occurrences have the empty
  description, or all of whose occurrences have the same description, is skipped in
  this way.
\<close>

theorem consistent_column_skipped:
  "(non_empty_descs dd = [] \<or> length dd = 1 \<longrightarrow> analyse_column fix_mode st (c, dd) = st) \<and>
   ((c, dd) \<in> set (collect evs) \<and>
      ((\<forall>p\<in>set (column_pairs evs c). fst p = []) \<or>
       (\<forall>p\<in>set (column_pairs evs c). \<forall>q\<in>set (column_pairs evs c). fst p = fst q)) \<longrightarrow>
    analyse_column fix_mode st (c, dd) = st)"
proof (intro conjI impI)
  assume "non_empty_descs dd = [] \<or> length dd = 1"
  then have "non_empty_descs dd = [] \<or> length dd \<le> 1" by auto
  then show "analyse_column fix_mode st (c, dd) = st" by (rule analyse_column_skip)
next
  assume a: "(c, dd) \<in> set (collect evs) \<and>
      ((\<forall>p\<in>set (column_pairs evs c). fst p = []) \<or>
       (\<forall>p\<in>set (column_pairs evs c). \<forall>q\<in>set (column_pairs evs c). fst p = fst q))"
  then have dd: "dd = group_descs (column_pairs evs c)" using collect_entry by blast
  from a have "non_empty_descs dd = [] \<or> \<not> 1 < length dd"
    unfolding dd non_empty_descs_Nil group_descs_many by blast
  then have "non_empty_descs dd = [] \<or> length dd \<le> 1" by auto
  then show "analyse_column fix_mode st (c, dd) = st" by (rule analyse_column_skip)
qed

theorem consistent_column_skipped_witness:
  "(''note'', group_descs (column_pairs tie_events ''note'')) \<in> set (collect tie_events) \<and>
   analyse_column True (0, [], [])
     (''note'', group_descs (column_pairs tie_events ''note'')) = (0, [], []) \<and>
   (''id'', group_descs (column_pairs tie_events ''id'')) \<in> set (collect tie_events) \<and>
   length (group_descs (column_pairs tie_events ''id'')) = 1 \<and>
   analyse_column True (0, [], [])
     (''id'', group_descs (column_pairs tie_events ''id'')) = (0, [], [])"
proof -
  have n: "(''note'', group_descs (column_pairs tie_events ''note'')) \<in> set (collect tie_events)"
    by code_simp
  have ne: "\<forall>p\<in>set (column_pairs tie_events ''note''). fst p = []"
    by code_simp
  have i: "(''id'', group_descs (column_pairs tie_events ''id'')) \<in> set (collect tie_events)"
    by code_simp
  have l: "length (group_descs (column_pairs tie_events ''id'')) = 1"
    by code_simp
  from consistent_column_skipped [of "group_descs (column_pairs tie_events ''note'')"
      True "(0, [], [])" "''note''" tie_events, THEN conjunct2] n ne
  have a: "analyse_column True (0, [], [])
     (''note'', group_descs (column_pairs tie_events ''note'')) = (0, [], [])"
    by blast
  from consistent_column_skipped [of "group_descs (column_pairs tie_events ''id'')"
      True "(0, [], [])" "''id''" tie_events, THEN conjunct1] l
  have b: "analyse_column True (0, [], [])
     (''id'', group_descs (column_pairs tie_events ''id'')) = (0, [], [])"
    by blast
  from n a i l b show ?thesis by (intro conjI)
qed
section \<open>Failures that do not stop the run\<close>


lemma skip_failed_edit:
  assumes "apply_fix (fst (apply_fixes lines pre)) f = Inl w"
  shows "fst (apply_fixes lines (pre @ f # post)) = fst (apply_fixes lines (pre @ post)) \<and>
     fst (snd (apply_fixes lines (pre @ f # post))) = fst (snd (apply_fixes lines (pre @ post))) \<and>
     snd (snd (apply_fixes lines (pre @ f # post))) =
       snd (snd (apply_fixes lines pre)) @ [w] @
       drop (length (snd (snd (apply_fixes lines pre)))) (snd (snd (apply_fixes lines (pre @ post))))"
proof -
  obtain l1 m1 w1 where a: "apply_fixes lines pre = (l1, m1, w1)"
    by (cases "apply_fixes lines pre")
  obtain l2 m2 w2 where b: "foldl fix_step (l1, m1, []) post = (l2, m2, w2)"
    by (cases "foldl fix_step (l1, m1, []) post")
  from assms a have f: "fix_step (l1, m1, w1) f = (l1, m1, w1 @ [w])"
    by (simp add: fix_step_Inl)
  have "apply_fixes lines (pre @ f # post) = foldl fix_step (l1, m1, w1 @ [w]) post"
    using a f by (simp add: apply_fixes_def)
  also have "\<dots> = (l2, m2, (w1 @ [w]) @ w2)"
    using fix_step_warnings [of l1 m1 "w1 @ [w]" post] b by simp
  finally have x: "apply_fixes lines (pre @ f # post) = (l2, m2, (w1 @ [w]) @ w2)" .
  have "apply_fixes lines (pre @ post) = foldl fix_step (l1, m1, w1) post"
    using a by (simp add: apply_fixes_def)
  also have "\<dots> = (l2, m2, w1 @ w2)"
    using fix_step_warnings [of l1 m1 w1 post] b by simp
  finally have y: "apply_fixes lines (pre @ post) = (l2, m2, w1 @ w2)" .
  show ?thesis by (simp add: x y a)
qed

lemma events_of_append: "events_of load (xs @ ys) = events_of load xs @ events_of load ys"
  by (simp add: events_of_def)

lemma events_of_failed:
  "load content = Inl e \<Longrightarrow>
     events_of load (files1 @ (p, content) # files2) = events_of load (files1 @ files2)"
  by (simp add: events_of_def file_events_def)

lemma collect_step_failed:
  "load content = Inl e \<Longrightarrow>
     collect_step load (cm, out) (p, content) = (cm, out @ [ErrorReading p e])"
  by (simp add: collect_step_def)

lemma collect_fold_reports:
  assumes "load content = Inl e"
  shows "ErrorReading p e \<in>
     set (snd (foldl (collect_step load) st (files1 @ (p, content) # files2)))"
proof -
  obtain cm out where s: "foldl (collect_step load) st files1 = (cm, out)"
    by (cases "foldl (collect_step load) st files1")
  have "foldl (collect_step load) st (files1 @ (p, content) # files2) =
        foldl (collect_step load) (cm, out @ [ErrorReading p e]) files2"
    using s assms by (simp add: collect_step_failed)
  moreover have "set (snd (cm, out @ [ErrorReading p e])) \<subseteq>
      set (snd (foldl (collect_step load) (cm, out @ [ErrorReading p e]) files2))"
    by (rule collect_fold_messages)
  ultimately show ?thesis by auto
qed

lemma occ_fold_messages:
  "set (snd s) \<subseteq> set (snd (foldl (occ_step fm col best) s occs))"
proof (rule foldl_invariant [where P = "\<lambda>s'. set (snd s) \<subseteq> set (snd s')"])
  fix s' :: "fixes_by_file \<times> message list" and x
  assume "set (snd s) \<subseteq> set (snd s')"
  then show "set (snd s) \<subseteq> set (snd (occ_step fm col best s' x))"
    by (cases s') (auto simp: occ_step_def)
qed simp

lemma desc_step_messages:
  "set (snd s) \<subseteq> set (snd (desc_step fm col best s item))"
proof -
  obtain fbf out where s: "s = (fbf, out)" by (cases s)
  obtain desc occs where i: "item = (desc, occs)" by (cases item)
  show ?thesis
  proof (cases "desc = best")
    case True
    then show ?thesis by (simp add: s i desc_step_pair)
  next
    case False
    from occ_fold_messages [of "(fbf, out @ [OtherDescription (length occs) desc])" fm col best occs]
    have "set out \<subseteq> set (snd (foldl (occ_step fm col best)
        (fbf, out @ [OtherDescription (length occs) desc]) occs))"
      by simp
    with False show ?thesis by (simp add: s i desc_step_pair)
  qed
qed

lemma desc_fold_messages:
  "set (snd s) \<subseteq> set (snd (foldl (desc_step fm col best) s dd))"
proof (rule foldl_invariant [where P = "\<lambda>s'. set (snd s) \<subseteq> set (snd s')"])
  fix s' :: "fixes_by_file \<times> message list" and x
  assume "set (snd s) \<subseteq> set (snd s')"
  also have "\<dots> \<subseteq> set (snd (desc_step fm col best s' x))"
    by (rule desc_step_messages)
  finally show "set (snd s) \<subseteq> set (snd (desc_step fm col best s' x))" .
qed simp

lemma analyse_column_messages:
  "set (snd (snd s)) \<subseteq> set (snd (snd (analyse_column fm s item)))"
proof -
  obtain n fbf out where s: "s = (n, fbf, out)" by (cases s)
  obtain c dd where i: "item = (c, dd)" by (cases item)
  show ?thesis
  proof (cases "non_empty_descs dd \<noteq> [] \<and> 1 < length dd")
    case True
    obtain fbf' out' where f: "foldl (desc_step fm c (best_desc dd))
        (fbf, out @ [InconsistencyFor c,
            BestDescription (length (snd (sorted_descs dd ! 0))) (best_desc dd)]) dd = (fbf', out')"
      by (cases "foldl (desc_step fm c (best_desc dd))
        (fbf, out @ [InconsistencyFor c,
            BestDescription (length (snd (sorted_descs dd ! 0))) (best_desc dd)]) dd")
    from desc_fold_messages [of "(fbf, out @ [InconsistencyFor c,
            BestDescription (length (snd (sorted_descs dd ! 0))) (best_desc dd)])"
        fm c "best_desc dd" dd]
    have "set out \<subseteq> set out'" by (simp add: f)
    with True f show ?thesis by (simp add: s i analyse_column_def)
  next
    case False
    then have "non_empty_descs dd = [] \<or> length dd \<le> 1" by auto
    from analyse_column_skip [OF this] show ?thesis by (simp add: s i)
  qed
qed

lemma analyse_messages: "set out \<subseteq> set (snd (snd (analyse fm cm out)))"
  unfolding analyse_def
proof (rule foldl_invariant [where P = "\<lambda>s'. set out \<subseteq> set (snd (snd s'))"])
  fix s' :: analysis and x
  assume "set out \<subseteq> set (snd (snd s'))"
  also have "\<dots> \<subseteq> set (snd (snd (analyse_column fm s' x)))"
    by (rule analyse_column_messages)
  finally show "set out \<subseteq> set (snd (snd (analyse_column fm s' x)))" .
qed simp

lemma printed_scan:
  "set (snd (foldl (collect_step load) ([], [Scanning (length files)]) files)) \<subseteq>
     set (printed (check_and_fix load files fm))"
proof -
  obtain cm out1 where c: "foldl (collect_step load) ([], [Scanning (length files)]) files = (cm, out1)"
    by (cases "foldl (collect_step load) ([], [Scanning (length files)]) files")
  obtain n fbf out2 where a: "analyse fm cm out1 = (n, fbf, out2)"
    by (cases "analyse fm cm out1")
  obtain files' out4 where u: "foldl update_step
           (files, out2 @ [if n = 0 then NoInconsistencies else FoundInconsistent n] @
              [ApplyingFixes]) fbf = (files', out4)"
    by (cases "foldl update_step
           (files, out2 @ [if n = 0 then NoInconsistencies else FoundInconsistent n] @
              [ApplyingFixes]) fbf")
  from analyse_messages [of out1 fm cm] a have m1: "set out1 \<subseteq> set out2" by simp
  from update_fold_messages [of "(files, out2 @
      [if n = 0 then NoInconsistencies else FoundInconsistent n] @ [ApplyingFixes])" fbf] u
  have m2: "set out2 \<subseteq> set out4" by simp
  from m1 m2 show ?thesis
    unfolding check_and_fix_unfold [OF c a u] c by auto
qed

lemma printed_warnings:
  assumes "(q, fxs) \<in> set (pending_fixes load files True)" and "map_of files q = Some body"
  shows "Warn q ` set (snd (update_file body fxs)) \<subseteq>
     set (printed (check_and_fix load files True))"
proof -
  obtain cm out1 where c: "foldl (collect_step load) ([], [Scanning (length files)]) files = (cm, out1)"
    by (cases "foldl (collect_step load) ([], [Scanning (length files)]) files")
  with collect_run [of load "[Scanning (length files)]" files]
  have cm: "cm = collect (events_of load files)" by simp
  obtain n fbf out2 where a: "analyse True cm out1 = (n, fbf, out2)"
    by (cases "analyse True cm out1")
  with analyse_fixes [of True cm out1] have fbf: "fbf = pending_fixes load files True"
    by (simp add: pending_fixes_def cm)
  obtain files' out4 where u: "foldl update_step
           (files, out2 @ [if n = 0 then NoInconsistencies else FoundInconsistent n] @
              [ApplyingFixes]) fbf = (files', out4)"
    by (cases "foldl update_step
           (files, out2 @ [if n = 0 then NoInconsistencies else FoundInconsistent n] @
              [ApplyingFixes]) fbf")
  from assms(1) have ne: "fbf \<noteq> []" unfolding fbf by auto
  have d: "distinct (map fst fbf)" unfolding fbf by (rule pending_fixes_distinct)
  from assms(1) have mem: "(q, fxs) \<in> set fbf" unfolding fbf .
  from update_fold_warns [OF d mem assms(2), of "out2 @
      [if n = 0 then NoInconsistencies else FoundInconsistent n] @ [ApplyingFixes]"] u
  have "Warn q ` set (snd (update_file body fxs)) \<subseteq> set out4" by simp
  with ne show ?thesis
    unfolding check_and_fix_unfold [OF c a u] by auto
qed

lemma files_after_patched:
  assumes "(q, fxs) \<in> set (pending_fixes load files True)" and "map_of files q = Some body"
  shows "map_of (files_after (check_and_fix load files True)) q = Some (written body fxs)"
proof -
  have d: "distinct (map fst (pending_fixes load files True))"
    by (rule pending_fixes_distinct)
  with assms(1) have m: "map_of (pending_fixes load files True) q = Some fxs" by simp
  from update_fold_map_of [OF d, of files "[]" q] m assms(2) show ?thesis
    by (simp add: check_and_fix_files)
qed

text \<open>
  Claim C8. A file whose parse raises is reported with \<open>ErrorReading\<close> among the messages
  of the run, the loop over the files goes on, and the collected model, the count of
  inconsistent columns and the pending edits of the run are those of the run over the
  tree without that file. An edit whose lookup misses adds its warning and leaves the
  line buffer and the \<open>modified\<close> flag as they were: the buffer and the flag at the end
  of the batch are those of the batch without that edit, and the warnings are those of
  the batch without it with the one warning added at its place. Every file with pending
  edits occurs once among them, is patched with its own batch whatever happened to the
  other files, and has the warnings of its batch among the messages of the run.
\<close>

theorem failures_are_local:
  "(load content = Inl e \<longrightarrow>
      collect_step load (cm, out) (p, content) = (cm, out @ [ErrorReading p e]) \<and>
      fst (foldl (collect_step load) ([], out) (files1 @ (p, content) # files2)) =
        fst (foldl (collect_step load) ([], out) (files1 @ files2)) \<and>
      ErrorReading p e \<in>
        set (printed (check_and_fix load (files1 @ (p, content) # files2) fix_mode)) \<and>
      inconsistent (check_and_fix load (files1 @ (p, content) # files2) fix_mode) =
        inconsistent (check_and_fix load (files1 @ files2) fix_mode) \<and>
      pending_fixes load (files1 @ (p, content) # files2) fix_mode =
        pending_fixes load (files1 @ files2) fix_mode) \<and>
   (apply_fix (fst (apply_fixes lines pre)) f = Inl w \<longrightarrow>
      fix_step (apply_fixes lines pre) f =
        (fst (apply_fixes lines pre), fst (snd (apply_fixes lines pre)),
         snd (snd (apply_fixes lines pre)) @ [w]) \<and>
      fst (apply_fixes lines (pre @ f # post)) = fst (apply_fixes lines (pre @ post)) \<and>
      fst (snd (apply_fixes lines (pre @ f # post))) =
        fst (snd (apply_fixes lines (pre @ post))) \<and>
      snd (snd (apply_fixes lines (pre @ f # post))) =
        snd (snd (apply_fixes lines pre)) @ [w] @
        drop (length (snd (snd (apply_fixes lines pre))))
          (snd (snd (apply_fixes lines (pre @ post))))) \<and>
   distinct (map fst (pending_fixes load tr fix_mode)) \<and>
   ((q, fxs) \<in> set (pending_fixes load tr True) \<and> map_of tr q = Some body \<longrightarrow>
      map_of (files_after (check_and_fix load tr True)) q = Some (written body fxs) \<and>
      Warn q ` set (snd (update_file body fxs)) \<subseteq>
        set (printed (check_and_fix load tr True)))"
proof (intro conjI impI)
  assume l: "load content = Inl e"
  note ev = events_of_failed [where load = load and content = content and e = e, OF l]
  show "collect_step load (cm, out) (p, content) = (cm, out @ [ErrorReading p e])"
    using l by (rule collect_step_failed)
  show "fst (foldl (collect_step load) ([], out) (files1 @ (p, content) # files2)) =
        fst (foldl (collect_step load) ([], out) (files1 @ files2))"
    by (simp only: collect_run ev)
  have "ErrorReading p e \<in> set (snd (foldl (collect_step load)
      ([], [Scanning (length (files1 @ (p, content) # files2))])
      (files1 @ (p, content) # files2)))"
    using l by (rule collect_fold_reports)
  with printed_scan [of load "files1 @ (p, content) # files2" fix_mode]
  show "ErrorReading p e \<in>
        set (printed (check_and_fix load (files1 @ (p, content) # files2) fix_mode))"
    by (rule rev_subsetD [rotated])
  show "inconsistent (check_and_fix load (files1 @ (p, content) # files2) fix_mode) =
        inconsistent (check_and_fix load (files1 @ files2) fix_mode)"
    by (simp only: check_and_fix_count ev)
  show "pending_fixes load (files1 @ (p, content) # files2) fix_mode =
        pending_fixes load (files1 @ files2) fix_mode"
    by (simp only: pending_fixes_def ev)
next
  assume a: "apply_fix (fst (apply_fixes lines pre)) f = Inl w"
  show "fix_step (apply_fixes lines pre) f =
        (fst (apply_fixes lines pre), fst (snd (apply_fixes lines pre)),
         snd (snd (apply_fixes lines pre)) @ [w])"
    using a by (cases "apply_fixes lines pre") (simp add: fix_step_Inl)
  from skip_failed_edit [OF a, of post]
  show "fst (apply_fixes lines (pre @ f # post)) = fst (apply_fixes lines (pre @ post))"
    and "fst (snd (apply_fixes lines (pre @ f # post))) =
        fst (snd (apply_fixes lines (pre @ post)))"
    and "snd (snd (apply_fixes lines (pre @ f # post))) =
        snd (snd (apply_fixes lines pre)) @ [w] @
        drop (length (snd (snd (apply_fixes lines pre))))
          (snd (snd (apply_fixes lines (pre @ post))))"
    by blast+
next
  show "distinct (map fst (pending_fixes load tr fix_mode))"
    by (rule pending_fixes_distinct)
next
  assume a: "(q, fxs) \<in> set (pending_fixes load tr True) \<and> map_of tr q = Some body"
  then show "map_of (files_after (check_and_fix load tr True)) q = Some (written body fxs)"
    by (intro files_after_patched) simp_all
  from a show "Warn q ` set (snd (update_file body fxs)) \<subseteq>
        set (printed (check_and_fix load tr True))"
    by (intro printed_warnings) simp_all
qed

theorem failures_are_local_witness:
  "mixed_load broken_file = Inl ''ParserError'' \<and>
   ErrorReading ''bad.yml'' ''ParserError'' \<in> set (printed (check_and_fix mixed_load mixed_tree True)) \<and>
   inconsistent (check_and_fix mixed_load mixed_tree True) =
     inconsistent (check_and_fix mixed_load
       [(''a.yml'', reference_file), (''b.yml'', nameless_file), (''c.yml'', orders_file)] True) \<and>
   apply_fix (fst (apply_fixes (readlines orders_file) [fix_id])) fix_source =
     Inl (NoRootKey ''sources'') \<and>
   fst (apply_fixes (readlines orders_file) [fix_id, fix_source, fix_status]) =
     fst (apply_fixes (readlines orders_file) [fix_id, fix_status]) \<and>
   fst (snd (apply_fixes (readlines orders_file) [fix_id, fix_source, fix_status])) =
     fst (snd (apply_fixes (readlines orders_file) [fix_id, fix_status])) \<and>
   snd (snd (apply_fixes (readlines orders_file) [fix_id, fix_source, fix_status])) =
     [NoRootKey ''sources''] \<and>
   pending_fixes mixed_load mixed_tree True =
     [(''b.yml'', [fix_of ''status'' ''current state'' (nameless_occ ''b.yml'')]),
      (''c.yml'', [fix_of ''status'' ''current state'' (model_occ ''c.yml'' ''orders'')])] \<and>
   Warn ''b.yml'' (NoParent Model None) \<in> set (printed (check_and_fix mixed_load mixed_tree True)) \<and>
   map_of (files_after (check_and_fix mixed_load mixed_tree True)) ''b.yml'' = Some nameless_file \<and>
   map_of (files_after (check_and_fix mixed_load mixed_tree True)) ''c.yml'' =
     Some patched_orders_file"
proof -
  let ?fb = "fix_of ''status'' ''current state'' (nameless_occ ''b.yml'')"
  let ?fc = "fix_of ''status'' ''current state'' (model_occ ''c.yml'' ''orders'')"
  have l: "mixed_load broken_file = Inl ''ParserError''"
    by code_simp
  have a: "apply_fix (fst (apply_fixes (readlines orders_file) [fix_id])) fix_source =
      Inl (NoRootKey ''sources'')"
    by code_simp
  have w0: "snd (snd (apply_fixes (readlines orders_file) [fix_id])) = []"
    by code_simp
  have w1: "snd (snd (apply_fixes (readlines orders_file) [fix_id, fix_status])) = []"
    by code_simp
  have pf: "pending_fixes mixed_load mixed_tree True = [(''b.yml'', [?fb]), (''c.yml'', [?fc])]"
    by code_simp
  have tr: "mixed_tree = [(''a.yml'', reference_file)] @ (''bad.yml'', broken_file) #
      [(''b.yml'', nameless_file), (''c.yml'', orders_file)]"
    by (simp add: mixed_tree_def)
  have db: "(''b.yml'', [?fb]) \<in> set (pending_fixes mixed_load mixed_tree True) \<and>
      map_of mixed_tree ''b.yml'' = Some nameless_file"
    unfolding pf by (simp add: mixed_tree_def)
  have dc: "(''c.yml'', [?fc]) \<in> set (pending_fixes mixed_load mixed_tree True) \<and>
      map_of mixed_tree ''c.yml'' = Some orders_file"
    unfolding pf by (simp add: mixed_tree_def)
  have ub: "update_file nameless_file [?fb] = (None, [NoParent Model None])"
    by code_simp
  have uc: "written orders_file [?fc] = patched_orders_file"
    by code_simp
  note t = failures_are_local [where load = mixed_load and content = broken_file
      and e = "''ParserError''" and p = "''bad.yml''"
      and ?files1.0 = "[(''a.yml'', reference_file)]"
      and ?files2.0 = "[(''b.yml'', nameless_file), (''c.yml'', orders_file)]"
      and out = "[]" and cm = "[]" and fix_mode = True
      and lines = "readlines orders_file" and pre = "[fix_id]" and f = fix_source
      and w = "NoRootKey ''sources''" and post = "[fix_status]"
      and tr = mixed_tree, folded tr]
  note t1 = t [THEN conjunct1, THEN mp, OF l]
  note t2 = t [THEN conjunct2, THEN conjunct1, THEN mp, OF a]
  note tb = t [where q = "''b.yml''" and fxs = "[?fb]" and body = nameless_file,
      THEN conjunct2, THEN conjunct2, THEN conjunct2, THEN mp, OF db]
  note tc = t [where q = "''c.yml''" and fxs = "[?fc]" and body = orders_file,
      THEN conjunct2, THEN conjunct2, THEN conjunct2, THEN mp, OF dc]
  from t1 have c2: "ErrorReading ''bad.yml'' ''ParserError'' \<in>
      set (printed (check_and_fix mixed_load mixed_tree True))"
    and c3: "inconsistent (check_and_fix mixed_load mixed_tree True) =
     inconsistent (check_and_fix mixed_load
       [(''a.yml'', reference_file), (''b.yml'', nameless_file), (''c.yml'', orders_file)] True)"
    by simp_all
  from t2 have b1: "fst (apply_fixes (readlines orders_file) [fix_id, fix_source, fix_status]) =
     fst (apply_fixes (readlines orders_file) [fix_id, fix_status])"
    and b2: "fst (snd (apply_fixes (readlines orders_file) [fix_id, fix_source, fix_status])) =
     fst (snd (apply_fixes (readlines orders_file) [fix_id, fix_status]))"
    by simp_all
  from t2 have "snd (snd (apply_fixes (readlines orders_file) ([fix_id] @ fix_source # [fix_status]))) =
        snd (snd (apply_fixes (readlines orders_file) [fix_id])) @ [NoRootKey ''sources''] @
        drop (length (snd (snd (apply_fixes (readlines orders_file) [fix_id]))))
          (snd (snd (apply_fixes (readlines orders_file) ([fix_id] @ [fix_status]))))"
    by (elim conjE)
  then have b3: "snd (snd (apply_fixes (readlines orders_file) [fix_id, fix_source, fix_status])) =
     [NoRootKey ''sources'']"
    by (simp add: w0 w1)
  from tb have "Warn ''b.yml'' ` set (snd (update_file nameless_file [?fb])) \<subseteq>
      set (printed (check_and_fix mixed_load mixed_tree True))"
    by (elim conjE)
  then have e1: "Warn ''b.yml'' (NoParent Model None) \<in>
      set (printed (check_and_fix mixed_load mixed_tree True))"
    unfolding ub by simp
  from tb have "map_of (files_after (check_and_fix mixed_load mixed_tree True)) ''b.yml'' =
      Some (written nameless_file [?fb])"
    by (elim conjE)
  then have e2: "map_of (files_after (check_and_fix mixed_load mixed_tree True)) ''b.yml'' =
      Some nameless_file"
    by (simp add: written_def ub)
  from tc have "map_of (files_after (check_and_fix mixed_load mixed_tree True)) ''c.yml'' =
      Some (written orders_file [?fc])"
    by (elim conjE)
  then have e3: "map_of (files_after (check_and_fix mixed_load mixed_tree True)) ''c.yml'' =
      Some patched_orders_file"
    by (simp only: uc)
  from l c2 c3 a b1 b2 b3 pf e1 e2 e3 show ?thesis by (intro conjI)
qed
section \<open>Entries without a name\<close>

lemma scan_block_no_target: "scan_block parent_indent None None i xs = None"
  by (induction xs arbitrary: i) (simp_all add: key_match_def name_match_def)

lemma find_child_block_no_target: "find_child_block lines i None None = None"
  by (simp add: find_child_block_def scan_block_no_target)

lemma apply_fix_nameless:
  "fix_parent f = None \<Longrightarrow> apply_fix lines f = Inl (nameless_warning lines f)"
  by (simp add: apply_fix_def locate_column_def nameless_warning_def
      find_child_block_no_target split: option.splits)

lemma fix_fold_nameless:
  "\<forall>f\<in>set fxs. fix_parent f = None \<Longrightarrow>
     foldl fix_step (lines, m, ws) fxs = (lines, m, ws @ map (nameless_warning lines) fxs)"
  by (induction fxs arbitrary: ws) (simp_all add: fix_step_Inl apply_fix_nameless)

lemma column_events_member:
  assumes "col \<in> set cols" and "col_name col = Some n" and "n \<noteq> []"
  shows "(n, desc_of col,
          \<lparr>occ_file = p, occ_type = t, occ_parent = parent, occ_table = tbl\<rparr>)
         \<in> set (column_events p t parent tbl cols)"
  using assms by (force simp: column_events_def)

lemma column_events_parent:
  "e \<in> set (column_events p t parent tbl cols) \<Longrightarrow> occ_parent (snd (snd e)) = parent"
  by (auto simp: column_events_def split: option.splits if_splits)

text \<open>
  Claim C10, as the code has it. The columns of a model or source without a name are
  collected, each with an occurrence whose parent is \<open>None\<close>, and an edit takes the
  parent of its occurrence. A block scan that is given neither a key nor a name
  matches no line. An edit whose parent is \<open>None\<close> is dropped with a warning and leaves
  the line buffer and the \<open>modified\<close> flag as they were: the warning is the one of the
  parent lookup when a line of the file starts with the root key, and the one of the
  root key lookup, which comes first, when no line does. A batch of such edits writes
  nothing.
\<close>

theorem nameless_parent_never_patched:
  "(model_name m = None \<longrightarrow>
      (\<forall>col\<in>set (model_columns m). \<forall>n. col_name col = Some n \<and> n \<noteq> [] \<longrightarrow>
         (n, desc_of col,
          \<lparr>occ_file = p, occ_type = Model, occ_parent = None, occ_table = None\<rparr>)
         \<in> set (model_events p m)) \<and>
      (\<forall>e\<in>set (model_events p m). occ_parent (snd (snd e)) = None)) \<and>
   (source_name s = None \<longrightarrow>
      (\<forall>t\<in>set (source_tables s). \<forall>col\<in>set (table_columns t).
         \<forall>n. col_name col = Some n \<and> n \<noteq> [] \<longrightarrow>
           (n, desc_of col,
            \<lparr>occ_file = p, occ_type = Source, occ_parent = None, occ_table = table_name t\<rparr>)
           \<in> set (source_events p s)) \<and>
      (\<forall>e\<in>set (source_events p s). occ_parent (snd (snd e)) = None)) \<and>
   fix_parent (fix_of c best oc) = occ_parent oc \<and>
   find_child_block lines i None None = None \<and>
   (fix_parent f = None \<longrightarrow>
      apply_fix lines f =
        Inl (if find_root lines (root_key_of (fix_type f)) = None
             then NoRootKey (root_key_of (fix_type f)) else NoParent (fix_type f) None) \<and>
      fix_step (lines, modified, ws) f = (lines, modified, ws @ [nameless_warning lines f])) \<and>
   ((\<forall>f\<in>set fxs. fix_parent f = None) \<longrightarrow>
      update_file content fxs = (None, map (nameless_warning (readlines content)) fxs))"
proof (intro conjI impI ballI allI)
  fix col n
  assume "model_name m = None" and "col \<in> set (model_columns m)"
    and "col_name col = Some n \<and> n \<noteq> []"
  then show "(n, desc_of col,
      \<lparr>occ_file = p, occ_type = Model, occ_parent = None, occ_table = None\<rparr>)
      \<in> set (model_events p m)"
    using column_events_member [of col "model_columns m" n p Model "model_name m" None]
    by (simp add: model_events_def)
next
  fix e
  assume "model_name m = None" and "e \<in> set (model_events p m)"
  then show "occ_parent (snd (snd e)) = None"
    using column_events_parent [of e p Model "model_name m" None "model_columns m"]
    by (simp add: model_events_def)
next
  fix t col n
  assume "source_name s = None" and "t \<in> set (source_tables s)"
    and "col \<in> set (table_columns t)" and "col_name col = Some n \<and> n \<noteq> []"
  then show "(n, desc_of col,
      \<lparr>occ_file = p, occ_type = Source, occ_parent = None, occ_table = table_name t\<rparr>)
      \<in> set (source_events p s)"
    using column_events_member [of col "table_columns t" n p Source "source_name s"
        "table_name t"]
    by (auto simp: source_events_def)
next
  fix e
  assume n: "source_name s = None" and e: "e \<in> set (source_events p s)"
  from e have "\<exists>t\<in>set (source_tables s).
      e \<in> set (column_events p Source (source_name s) (table_name t) (table_columns t))"
    by (simp add: source_events_def)
  then obtain t :: table where "e \<in> set (column_events p Source (source_name s) (table_name t)
      (table_columns t))"
    by (elim bexE)
  from column_events_parent [OF this] n show "occ_parent (snd (snd e)) = None"
    by simp
next
  show "fix_parent (fix_of c best oc) = occ_parent oc"
    by (simp add: fix_of_def)
next
  show "find_child_block lines i None None = None"
    by (rule find_child_block_no_target)
next
  assume n: "fix_parent f = None"
  from apply_fix_nameless [OF n]
  show "apply_fix lines f =
        Inl (if find_root lines (root_key_of (fix_type f)) = None
             then NoRootKey (root_key_of (fix_type f)) else NoParent (fix_type f) None)"
    by (simp add: nameless_warning_def split: option.splits)
  from apply_fix_nameless [OF n]
  show "fix_step (lines, modified, ws) f = (lines, modified, ws @ [nameless_warning lines f])"
    by (rule fix_step_Inl)
next
  assume "\<forall>f\<in>set fxs. fix_parent f = None"
  from fix_fold_nameless [OF this, of "readlines content" False "[]"]
  show "update_file content fxs = (None, map (nameless_warning (readlines content)) fxs)"
    by (simp add: update_file_def apply_fixes_def)
qed

theorem nameless_parent_never_patched_witness:
  "(''status'', '''', nameless_occ ''b.yml'') \<in> set (model_events ''b.yml'' nameless_model) \<and>
   (''id'', ''key'',
    \<lparr>occ_file = ''b.yml'', occ_type = Source, occ_parent = None, occ_table = Some ''orders''\<rparr>)
     \<in> set (source_events ''b.yml'' nameless_source) \<and>
   apply_fix (readlines nameless_file)
       (fix_of ''status'' ''current state'' (nameless_occ ''b.yml'')) =
     Inl (NoParent Model None) \<and>
   update_file nameless_file [fix_of ''status'' ''current state'' (nameless_occ ''b.yml'')] =
     (None, [NoParent Model None])"
proof -
  let ?f = "fix_of ''status'' ''current state'' (nameless_occ ''b.yml'')"
  let ?col = "\<lparr>col_name = Some ''status'', col_description = None\<rparr>"
  let ?idc = "\<lparr>col_name = Some ''id'', col_description = Some ''key''\<rparr>"
  let ?tbl = "\<lparr>table_name = Some ''orders'', table_columns = [?idc]\<rparr>"
  have m: "model_name nameless_model = None"
    by (simp add: nameless_model_def)
  have s: "source_name nameless_source = None"
    by (simp add: nameless_source_def)
  have f: "fix_parent ?f = None"
    by (simp add: fix_of_def nameless_occ_def)
  have fs: "\<forall>f\<in>set [?f]. fix_parent f = None"
    using f by simp
  have r: "find_root (readlines nameless_file) (root_key_of (fix_type ?f)) \<noteq> None"
    by code_simp
  have w: "nameless_warning (readlines nameless_file) ?f = NoParent Model None"
    by code_simp
  have k: "fix_type ?f = Model"
    by (simp add: fix_of_def nameless_occ_def)
  note t = nameless_parent_never_patched [where m = nameless_model and s = nameless_source
      and p = "''b.yml''" and f = ?f and fxs = "[?f]" and lines = "readlines nameless_file"
      and content = nameless_file]
  note t1 = t [THEN conjunct1, THEN mp, OF m, THEN conjunct1]
  note t2 = t [THEN conjunct2, THEN conjunct1, THEN mp, OF s, THEN conjunct1]
  note t5 = t [THEN conjunct2, THEN conjunct2, THEN conjunct2, THEN conjunct2, THEN conjunct1,
      THEN mp, OF f, THEN conjunct1]
  note t6 = t [THEN conjunct2, THEN conjunct2, THEN conjunct2, THEN conjunct2, THEN conjunct2,
      THEN mp, OF fs]
  have "?col \<in> set (model_columns nameless_model)"
    by (simp add: nameless_model_def)
  from t1 [THEN bspec, OF this, THEN spec, of "''status''"]
  have a: "(''status'', '''', nameless_occ ''b.yml'') \<in>
      set (model_events ''b.yml'' nameless_model)"
    by (simp add: desc_of_def nameless_occ_def)
  have "?tbl \<in> set (source_tables nameless_source)"
    by (simp add: nameless_source_def)
  from t2 [THEN bspec, OF this, THEN bspec, of ?idc, THEN spec, of "''id''"]
  have b: "(''id'', ''key'',
    \<lparr>occ_file = ''b.yml'', occ_type = Source, occ_parent = None, occ_table = Some ''orders''\<rparr>)
     \<in> set (source_events ''b.yml'' nameless_source)"
    by (simp add: desc_of_def)
  from t5 r k have c: "apply_fix (readlines nameless_file) ?f = Inl (NoParent Model None)"
    by simp
  from t6 w have d: "update_file nameless_file [?f] = (None, [NoParent Model None])"
    by simp
  from a b c d show ?thesis by (intro conjI)
qed

text \<open>
  The claim as it was written has every such edit fail at the parent lookup. In
  \<open>quoted_key_file\<close> the key \<open>models\<close> is written in double quotes: the parser returns
  the same tree, the model without a name is collected and an edit is pending for it,
  but no line of the text starts with \<open>models:\<close>, so the edit is dropped at the root key
  lookup with the warning of the root key, and the parent lookup is never run.
\<close>

theorem nameless_parent_never_patched_counterexample:
  "events_of quoted_key_load quoted_key_tree =
     [(''status'', ''current state'', model_occ ''a.yml'' ''customers''),
      (''status'', '''', nameless_occ ''q.yml'')] \<and>
   pending_fixes quoted_key_load quoted_key_tree True =
     [(''q.yml'', [fix_of ''status'' ''current state'' (nameless_occ ''q.yml'')])] \<and>
   find_root (readlines quoted_key_file) ''models'' = None \<and>
   apply_fix (readlines quoted_key_file)
       (fix_of ''status'' ''current state'' (nameless_occ ''q.yml'')) =
     Inl (NoRootKey ''models'') \<and>
   printed (check_and_fix quoted_key_load quoted_key_tree True) =
     [Scanning 2, InconsistencyFor ''status'', BestDescription 1 ''current state'',
      OtherDescription 1 '''', Location (nameless_occ ''q.yml''), FoundInconsistent 1,
      ApplyingFixes, Warn ''q.yml'' (NoRootKey ''models''), FixesApplied]"
  by code_simp
section \<open>The second run\<close>










end
